theory Spec2Isabelle
  imports Main "HOL-Library.Word" "HOL-Library.AList"
begin

unbundle bit_operations_syntax

section \<open>The JSON extension of the cement framework (cement/ext/ext_json.py)\<close>

text \<open>
  The extension is glue around the standard library's \<open>json\<close> module: \<open>render\<close> restores
  the process's output streams and returns \<open>json.dumps(data_dict)\<close>; \<open>_parse_file\<close> hands
  \<open>json.load(open(file_path))\<close> to the inherited \<open>merge\<close>; \<open>set_output_handler\<close> selects the
  handler labelled \<open>json\<close> when \<open>--json\<close> is on the command line.

  Effects are state passing: every operation takes the state it acts on and returns the outcome
  together with the state it leaves behind, so that what a call has already changed stays
  changed when it raises. A raised exception is the \<open>Inl\<close> of a sum.

  The three functions of the extension are translated from the source. What they call in the
  standard library (\<open>json.dumps\<close>, \<open>json.loads\<close>, \<open>open\<close>) is modelled after the library, for
  Python 3 strings; what they call in the rest of the framework is a parameter
  (\<open>merge\<close>, \<open>_setup_output_handler\<close>) or modelled from the spec where a property is about it.
\<close>

subsection \<open>Python values and exceptions\<close>

text \<open>
  A Python \<open>str\<close> is its list of code points. A \<open>float\<close> is either one of the three non-finite
  values or a finite value of an unspecified carrier \<open>'f\<close>; how finite floats are printed and
  read (\<open>float.__repr__\<close>, \<open>float(...)\<close>) is passed in as \<open>float_ops\<close>. A dictionary is the list of
  its items in insertion order.

  \<open>json.dumps\<close> tells values apart with \<open>isinstance\<close>, so an instance of a class derived from
  \<open>str\<close>, \<open>int\<close>, \<open>float\<close>, \<open>list\<close>, \<open>tuple\<close> or \<open>dict\<close> (an \<open>OrderedDict\<close>, a named tuple, an
  \<open>IntEnum\<close> member) is to it the value of the base type, and is that value here. \<open>PyObject\<close>
  stands for what is left: an instance of a class that is none of \<open>NoneType\<close>, \<open>bool\<close>, \<open>int\<close>,
  \<open>float\<close>, \<open>str\<close>, \<open>list\<close>, \<open>tuple\<close>, \<open>dict\<close> and derives from none of them (a socket, a
  \<open>datetime\<close>, a \<open>set\<close>), tagged with the class name.
\<close>

datatype 'f pyfloat = Finite 'f | NaN | PosInf | NegInf

datatype 'f pyval =
    PyNone
  | PyBool bool
  | PyInt int
  | PyFloat "'f pyfloat"
  | PyStr "nat list"
  | PyList "'f pyval list"
  | PyTuple "'f pyval list"
  | PyDict "('f pyval \<times> 'f pyval) list"
  | PyObject string

datatype error = TypeError | JSONDecodeError | OSError | AttributeError | RecursionError

record 'f float_ops =
  float_repr :: "'f \<Rightarrow> string"
  float_of_str :: "string \<Rightarrow> 'f pyfloat"

definition str :: "string \<Rightarrow> nat list" where
  "str s = map of_char s"

subsection \<open>\<open>json.dumps\<close> with its default arguments\<close>

text \<open>
  The encoder of the standard library as \<open>render\<close> calls it: \<open>ensure_ascii=True\<close>,
  \<open>allow_nan=True\<close>, \<open>skipkeys=False\<close>, separators \<open>', '\<close> and \<open>': '\<close>, no \<open>default\<close> hook.
\<close>

definition dq :: char where
  "dq = CHR 0x22"

definition bs :: char where
  "bs = CHR 0x5C"

definition hex_digit :: "nat \<Rightarrow> char" where
  "hex_digit d = (if d < 10 then char_of (48 + d) else char_of (87 + d))"

definition hex4 :: "nat \<Rightarrow> string" where
  "hex4 n = [hex_digit (n div 4096 mod 16), hex_digit (n div 256 mod 16),
             hex_digit (n div 16 mod 16), hex_digit (n mod 16)]"

definition u_escape :: "nat \<Rightarrow> string" where
  "u_escape n = bs # CHR ''u'' # hex4 n"

text \<open>
  \<open>py_encode_basestring_ascii\<close>: backslash, the double quote and everything outside
  \<open>' '..'~'\<close> is escaped; a code point beyond the basic plane becomes a surrogate pair.
\<close>

definition escape_char :: "nat \<Rightarrow> string" where
  "escape_char c =
     (if c = 0x5C then [bs, bs]
      else if c = 0x22 then [bs, dq]
      else if c = 0x08 then [bs, CHR ''b'']
      else if c = 0x0C then [bs, CHR ''f'']
      else if c = 0x0A then [bs, CHR ''n'']
      else if c = 0x0D then [bs, CHR ''r'']
      else if c = 0x09 then [bs, CHR ''t'']
      else if c < 0x20 \<or> 0x7E < c then
        (if c < 0x10000 then u_escape c
         else u_escape (0xD800 OR (drop_bit 10 (c - 0x10000) AND 0x3FF))
              @ u_escape (0xDC00 OR ((c - 0x10000) AND 0x3FF)))
      else [char_of c])"

definition encode_basestring_ascii :: "nat list \<Rightarrow> string" where
  "encode_basestring_ascii s = dq # concat (map escape_char s) @ [dq]"

text \<open>
  \<open>int.__repr__\<close>: decimal digits, a minus sign for negative numbers. Python's ints are
  unbounded, and so is the text (an interpreter's optional cap on the digits of a conversion is
  not modelled).
\<close>

fun nat_repr :: "nat \<Rightarrow> string" where
  "nat_repr n = (if n < 10 then [char_of (48 + n)]
                 else nat_repr (n div 10) @ [char_of (48 + n mod 10)])"

declare nat_repr.simps [simp del]

definition int_repr :: "int \<Rightarrow> string" where
  "int_repr i = (if i < 0 then CHR ''-'' # nat_repr (nat (- i)) else nat_repr (nat i))"

text \<open>\<open>floatstr\<close>: with \<open>allow_nan\<close> the non-finite values are written as JavaScript names.\<close>

fun floatstr :: "'f float_ops \<Rightarrow> 'f pyfloat \<Rightarrow> string" where
  "floatstr F NaN = ''NaN''"
| "floatstr F PosInf = ''Infinity''"
| "floatstr F NegInf = ''-Infinity''"
| "floatstr F (Finite x) = float_repr F x"

text \<open>
  The key of a dictionary item: a \<open>str\<close> is taken as it is, a float, bool, \<open>None\<close> or int is
  turned into its JSON text, anything else is a \<open>TypeError\<close>.
\<close>

fun key_str :: "'f float_ops \<Rightarrow> 'f pyval \<Rightarrow> error + nat list" where
  "key_str F (PyStr s) = Inr s"
| "key_str F (PyFloat x) = Inr (str (floatstr F x))"
| "key_str F (PyBool b) = Inr (str (if b then ''true'' else ''false''))"
| "key_str F PyNone = Inr (str ''null'')"
| "key_str F (PyInt i) = Inr (str (int_repr i))"
| "key_str F (PyList xs) = Inl TypeError"
| "key_str F (PyTuple xs) = Inl TypeError"
| "key_str F (PyDict kvs) = Inl TypeError"
| "key_str F (PyObject c) = Inl TypeError"

text \<open>
  \<open>json_dumps\<close> is \<open>_iterencode\<close> with the chunks joined; \<open>dumps_elems\<close> and \<open>dumps_items\<close> are
  the loops of \<open>_iterencode_list\<close> and \<open>_iterencode_dict\<close> after the first element, where each
  element is preceded by the separator. An exception anywhere leaves no text at all. A value
  of the model is a finite tree: there is no circular reference for the encoder to detect, and
  the interpreter's recursion limit is not modelled.
\<close>

fun json_dumps :: "'f float_ops \<Rightarrow> 'f pyval \<Rightarrow> error + string"
  and dumps_elems :: "'f float_ops \<Rightarrow> 'f pyval list \<Rightarrow> error + string"
  and dumps_items :: "'f float_ops \<Rightarrow> ('f pyval \<times> 'f pyval) list \<Rightarrow> error + string"
where
  "json_dumps F PyNone = Inr ''null''"
| "json_dumps F (PyBool b) = Inr (if b then ''true'' else ''false'')"
| "json_dumps F (PyInt i) = Inr (int_repr i)"
| "json_dumps F (PyFloat x) = Inr (floatstr F x)"
| "json_dumps F (PyStr s) = Inr (encode_basestring_ascii s)"
| "json_dumps F (PyList []) = Inr ''[]''"
| "json_dumps F (PyList (x # xs)) =
     (case json_dumps F x of Inl e \<Rightarrow> Inl e | Inr s \<Rightarrow>
      (case dumps_elems F xs of Inl e \<Rightarrow> Inl e | Inr t \<Rightarrow> Inr (''['' @ s @ t @ '']'')))"
| "json_dumps F (PyTuple []) = Inr ''[]''"
| "json_dumps F (PyTuple (x # xs)) =
     (case json_dumps F x of Inl e \<Rightarrow> Inl e | Inr s \<Rightarrow>
      (case dumps_elems F xs of Inl e \<Rightarrow> Inl e | Inr t \<Rightarrow> Inr (''['' @ s @ t @ '']'')))"
| "json_dumps F (PyDict []) = Inr ''{}''"
| "json_dumps F (PyDict ((k, v) # kvs)) =
     (case key_str F k of Inl e \<Rightarrow> Inl e | Inr ks \<Rightarrow>
      (case json_dumps F v of Inl e \<Rightarrow> Inl e | Inr s \<Rightarrow>
       (case dumps_items F kvs of Inl e \<Rightarrow> Inl e | Inr t \<Rightarrow>
          Inr (''{'' @ encode_basestring_ascii ks @ '': '' @ s @ t @ ''}''))))"
| "json_dumps F (PyObject c) = Inl TypeError"
| "dumps_elems F [] = Inr []"
| "dumps_elems F (x # xs) =
     (case json_dumps F x of Inl e \<Rightarrow> Inl e | Inr s \<Rightarrow>
      (case dumps_elems F xs of Inl e \<Rightarrow> Inl e | Inr t \<Rightarrow> Inr ('', '' @ s @ t)))"
| "dumps_items F [] = Inr []"
| "dumps_items F ((k, v) # kvs) =
     (case key_str F k of Inl e \<Rightarrow> Inl e | Inr ks \<Rightarrow>
      (case json_dumps F v of Inl e \<Rightarrow> Inl e | Inr s \<Rightarrow>
       (case dumps_items F kvs of Inl e \<Rightarrow> Inl e | Inr t \<Rightarrow>
          Inr ('', '' @ encode_basestring_ascii ks @ '': '' @ s @ t))))"

subsection \<open>The output handler: \<open>JsonOutputHandler.render\<close>\<close>

text \<open>
  The part of the process \<open>render\<close> acts on: the interpreter's current \<open>sys.stdout\<close> and
  \<open>sys.stderr\<close>, the streams the framework saved in \<open>backend.__saved_stdout__\<close> and
  \<open>backend.__saved_stderr__\<close> before it redirected anything, and the messages given to the
  module's logger. A stream is named by a number.
\<close>

type_synonym stream = nat

record process =
  sys_stdout :: stream
  sys_stderr :: stream
  saved_stdout :: stream
  saved_stderr :: stream
  debug_log :: "string list"

text \<open>
  Modelled from the spec: \<open>LOG.debug\<close> of the framework's \<open>minimal_logger\<close>, which is not part
  of this file (``diagnostic logging may record the attempt''). It records the message and
  touches nothing else.
\<close>

definition LOG_debug :: "string \<Rightarrow> process \<Rightarrow> process" where
  "LOG_debug msg p = p\<lparr>debug_log := debug_log p @ [msg]\<rparr>"

text \<open>
  \<open>render(self, data_dict, template=None)\<close>, statement by statement; \<open>self_module\<close> is
  \<open>self.__module__\<close>. The streams are assigned before \<open>json.dumps\<close> runs, so they stay assigned
  when it raises.
\<close>

definition render ::
  "'f float_ops \<Rightarrow> string \<Rightarrow> 'f pyval \<Rightarrow> 't \<Rightarrow> process \<Rightarrow> (error + string) \<times> process" where
  "render F self_module data_dict template p =
     (let p1 = LOG_debug (''rendering output as Json via '' @ self_module) p;
          p2 = p1\<lparr>sys_stdout := saved_stdout p1\<rparr>;
          p3 = p2\<lparr>sys_stderr := saved_stderr p2\<rparr>
      in (json_dumps F data_dict, p3))"

subsection \<open>\<open>json.loads\<close> with its default arguments\<close>

text \<open>Whitespace between tokens (\<open>WHITESPACE = [ \t\n\r]*\<close>).\<close>

definition is_ws :: "char \<Rightarrow> bool" where
  "is_ws c = (c = CHR 0x20 \<or> c = CHR 0x09 \<or> c = CHR 0x0A \<or> c = CHR 0x0D)"

definition skip_ws :: "string \<Rightarrow> string" where
  "skip_ws s = dropWhile is_ws s"

definition is_digit :: "char \<Rightarrow> bool" where
  "is_digit c = (48 \<le> (of_char c :: nat) \<and> (of_char c :: nat) \<le> 57)"

text \<open>
  \<open>scanstring\<close> (strict): the text after the opening quote up to the closing one. A backslash
  starts an escape; \<open>scan_escape\<close> reads the text after the backslash and gives the code point
  with the number of characters read, as the source advances its index. A high surrogate
  followed by an escaped low surrogate is one code point. A raw control character is an error.
\<close>

definition hex_val :: "char \<Rightarrow> nat option" where
  "hex_val c =
     (let n = of_char c in
      if 48 \<le> n \<and> n \<le> 57 then Some (n - 48)
      else if 97 \<le> n \<and> n \<le> 102 then Some (n - 87)
      else if 65 \<le> n \<and> n \<le> 70 then Some (n - 55)
      else None)"

definition decode_uXXXX :: "string \<Rightarrow> nat option" where
  "decode_uXXXX esc =
     (case esc of
        [a, b, c, d] \<Rightarrow>
          (case hex_val a of None \<Rightarrow> None | Some x \<Rightarrow>
           (case hex_val b of None \<Rightarrow> None | Some y \<Rightarrow>
            (case hex_val c of None \<Rightarrow> None | Some z \<Rightarrow>
             (case hex_val d of None \<Rightarrow> None | Some w \<Rightarrow>
                Some (((x * 16 + y) * 16 + z) * 16 + w)))))
      | _ \<Rightarrow> None)"

definition backslash :: "char \<Rightarrow> nat option" where
  "backslash e =
     (if e = dq then Some 0x22
      else if e = bs then Some 0x5C
      else if e = CHR ''/'' then Some 0x2F
      else if e = CHR ''b'' then Some 0x08
      else if e = CHR ''f'' then Some 0x0C
      else if e = CHR ''n'' then Some 0x0A
      else if e = CHR ''r'' then Some 0x0D
      else if e = CHR ''t'' then Some 0x09
      else None)"

definition scan_escape :: "string \<Rightarrow> (nat \<times> nat) option" where
  "scan_escape cs =
     (case cs of
        [] \<Rightarrow> None
      | e # r \<Rightarrow>
          if e \<noteq> CHR ''u'' then
            (case backslash e of None \<Rightarrow> None | Some x \<Rightarrow> Some (x, 1))
          else
            (case decode_uXXXX (take 4 r) of
               None \<Rightarrow> None
             | Some uni \<Rightarrow>
                 if 0xD800 \<le> uni \<and> uni \<le> 0xDBFF \<and> take 2 (drop 4 r) = [bs, CHR ''u''] then
                   (case decode_uXXXX (take 4 (drop 6 r)) of
                      None \<Rightarrow> None
                    | Some uni2 \<Rightarrow>
                        if 0xDC00 \<le> uni2 \<and> uni2 \<le> 0xDFFF then
                          Some (0x10000 + (push_bit 10 (uni - 0xD800) OR (uni2 - 0xDC00)), 11)
                        else Some (uni, 5))
                 else Some (uni, 5)))"

definition cons_char :: "nat \<Rightarrow> error + (nat list \<times> string) \<Rightarrow> error + (nat list \<times> string)" where
  "cons_char x res = (case res of Inl e \<Rightarrow> Inl e | Inr (s, r) \<Rightarrow> Inr (x # s, r))"

fun scanstring :: "string \<Rightarrow> error + (nat list \<times> string)" where
  "scanstring [] = Inl JSONDecodeError"
| "scanstring (c # cs) =
     (if c = dq then Inr ([], cs)
      else if c = bs then
        (case scan_escape cs of
           None \<Rightarrow> Inl JSONDecodeError
         | Some (x, k) \<Rightarrow> cons_char x (scanstring (drop k cs)))
      else if (of_char c :: nat) < 0x20 then Inl JSONDecodeError
      else cons_char (of_char c) (scanstring cs))"

text \<open>
  \<open>NUMBER_RE = (-?(?:0|[1-9]\d*))(\.\d+)?([eE][-+]?\d+)?\<close>, matched at the start of the
  text: the integer part, the fraction and the exponent (empty when absent) and the rest.
\<close>

definition match_frac :: "string \<Rightarrow> string \<times> string" where
  "match_frac s =
     (case s of
        [] \<Rightarrow> ([], s)
      | c # r \<Rightarrow>
          if c = CHR ''.'' \<and> takeWhile is_digit r \<noteq> []
          then (c # takeWhile is_digit r, dropWhile is_digit r)
          else ([], s))"

definition match_sign :: "string \<Rightarrow> string \<times> string" where
  "match_sign s =
     (case s of
        [] \<Rightarrow> ([], s)
      | c # r \<Rightarrow> if c = CHR ''+'' \<or> c = CHR ''-'' then ([c], r) else ([], s))"

definition match_exp :: "string \<Rightarrow> string \<times> string" where
  "match_exp s =
     (case s of
        [] \<Rightarrow> ([], s)
      | c # r \<Rightarrow>
          if (c = CHR ''e'' \<or> c = CHR ''E'')
             \<and> takeWhile is_digit (snd (match_sign r)) \<noteq> []
          then (c # fst (match_sign r) @ takeWhile is_digit (snd (match_sign r)),
                dropWhile is_digit (snd (match_sign r)))
          else ([], s))"

definition match_integer :: "string \<Rightarrow> (string \<times> string) option" where
  "match_integer s =
     (case s of
        [] \<Rightarrow> None
      | c # r \<Rightarrow>
          if c = CHR ''0'' then Some ([c], r)
          else if is_digit c then Some (takeWhile is_digit s, dropWhile is_digit s)
          else None)"

definition match_number :: "string \<Rightarrow> (string \<times> string \<times> string \<times> string) option" where
  "match_number s =
     (case (case s of [] \<Rightarrow> None
            | c # r \<Rightarrow> if c = CHR ''-''
                then (case match_integer r of None \<Rightarrow> None | Some (ds, r') \<Rightarrow> Some (c # ds, r'))
                else match_integer s) of
        None \<Rightarrow> None
      | Some (integer, r1) \<Rightarrow>
          Some (integer, fst (match_frac r1), fst (match_exp (snd (match_frac r1))),
                snd (match_exp (snd (match_frac r1)))))"

text \<open>\<open>int(...)\<close> on the integer part of a number.\<close>

definition digits_val :: "string \<Rightarrow> nat" where
  "digits_val ds = foldl (\<lambda>n c. 10 * n + (of_char c - 48)) 0 ds"

definition parse_int :: "string \<Rightarrow> int" where
  "parse_int s =
     (case s of
        [] \<Rightarrow> 0
      | c # r \<Rightarrow> if c = CHR ''-'' then - int (digits_val r) else int (digits_val s))"

text \<open>
  The branches of \<open>_scan_once\<close> that do not recurse: the three literals, a number (a float when
  it has a fraction or an exponent, an int otherwise), and the three names of non-finite floats.
\<close>

definition scan_atom :: "'f float_ops \<Rightarrow> string \<Rightarrow> error + ('f pyval \<times> string)" where
  "scan_atom F s =
     (if take 4 s = ''null'' then Inr (PyNone, drop 4 s)
      else if take 4 s = ''true'' then Inr (PyBool True, drop 4 s)
      else if take 5 s = ''false'' then Inr (PyBool False, drop 5 s)
      else
        (case match_number s of
           Some (integer, frac, exp, r) \<Rightarrow>
             if frac \<noteq> [] \<or> exp \<noteq> []
             then Inr (PyFloat (float_of_str F (integer @ frac @ exp)), r)
             else Inr (PyInt (parse_int integer), r)
         | None \<Rightarrow>
             if take 3 s = ''NaN'' then Inr (PyFloat NaN, drop 3 s)
             else if take 8 s = ''Infinity'' then Inr (PyFloat PosInf, drop 8 s)
             else if take 9 s = ''-Infinity'' then Inr (PyFloat NegInf, drop 9 s)
             else Inl JSONDecodeError))"

text \<open>\<open>dict(pairs)\<close>: a key that comes again keeps its place and takes the later value.\<close>

definition py_dict :: "(nat list \<times> 'f pyval) list \<Rightarrow> ('f pyval \<times> 'f pyval) list" where
  "py_dict pairs = foldl (\<lambda>d (k, v). AList.update (PyStr k) v d) [] pairs"

text \<open>
  \<open>_scan_once\<close> with \<open>JSONObject\<close> and \<open>JSONArray\<close>: \<open>array_loop\<close> and \<open>object_loop\<close> are their
  \<open>while True\<close> loops, entered at the first element and, for an object, after the opening quote
  of the first key. The three functions call each other on shorter and shorter text; the
  recursion runs on a counter, which \<open>json_loads\<close> sets high enough for any text (theorem
  \<open>json_loads_no_RecursionError\<close>), so that running out of it plays no part in what
  \<open>json_loads\<close> returns. The interpreter's own recursion limit is not modelled.
\<close>

fun scan_once :: "'f float_ops \<Rightarrow> nat \<Rightarrow> string \<Rightarrow> error + ('f pyval \<times> string)"
  and array_loop :: "'f float_ops \<Rightarrow> nat \<Rightarrow> string \<Rightarrow> error + ('f pyval list \<times> string)"
  and object_loop ::
    "'f float_ops \<Rightarrow> nat \<Rightarrow> string \<Rightarrow> error + ((nat list \<times> 'f pyval) list \<times> string)"
where
  "scan_once F 0 s = Inl RecursionError"
| "scan_once F (Suc n) [] = Inl JSONDecodeError"
| "scan_once F (Suc n) (c # cs) =
     (if c = dq then
        (case scanstring cs of Inl e \<Rightarrow> Inl e | Inr (t, r) \<Rightarrow> Inr (PyStr t, r))
      else if c = CHR ''{'' then
        (case skip_ws cs of
           [] \<Rightarrow> Inl JSONDecodeError
         | x # r \<Rightarrow>
             if x = CHR ''}'' then Inr (PyDict [], r)
             else if x = dq then
               (case object_loop F n r of
                  Inl e \<Rightarrow> Inl e
                | Inr (pairs, r') \<Rightarrow> Inr (PyDict (py_dict pairs), r'))
             else Inl JSONDecodeError)
      else if c = CHR ''['' then
        (case skip_ws cs of
           [] \<Rightarrow> Inl JSONDecodeError
         | x # r \<Rightarrow>
             if x = CHR '']'' then Inr (PyList [], r)
             else
               (case array_loop F n (x # r) of
                  Inl e \<Rightarrow> Inl e
                | Inr (vs, r') \<Rightarrow> Inr (PyList vs, r')))
      else scan_atom F (c # cs))"
| "array_loop F 0 s = Inl RecursionError"
| "array_loop F (Suc n) s =
     (case scan_once F n s of
        Inl e \<Rightarrow> Inl e
      | Inr (v, r) \<Rightarrow>
          (case skip_ws r of
             [] \<Rightarrow> Inl JSONDecodeError
           | d # r1 \<Rightarrow>
               if d = CHR '']'' then Inr ([v], r1)
               else if d = CHR '','' then
                 (case array_loop F n (skip_ws r1) of
                    Inl e \<Rightarrow> Inl e
                  | Inr (vs, r2) \<Rightarrow> Inr (v # vs, r2))
               else Inl JSONDecodeError))"
| "object_loop F 0 s = Inl RecursionError"
| "object_loop F (Suc n) s =
     (case scanstring s of
        Inl e \<Rightarrow> Inl e
      | Inr (key, r) \<Rightarrow>
          (case skip_ws r of
             [] \<Rightarrow> Inl JSONDecodeError
           | c # r1 \<Rightarrow>
               if c \<noteq> CHR '':'' then Inl JSONDecodeError
               else
                 (case scan_once F n (skip_ws r1) of
                    Inl e \<Rightarrow> Inl e
                  | Inr (v, r2) \<Rightarrow>
                      (case skip_ws r2 of
                         [] \<Rightarrow> Inl JSONDecodeError
                       | d # r3 \<Rightarrow>
                           if d = CHR ''}'' then Inr ([(key, v)], r3)
                           else if d = CHR '','' then
                             (case skip_ws r3 of
                                [] \<Rightarrow> Inl JSONDecodeError
                              | q # r4 \<Rightarrow>
                                  if q = dq then
                                    (case object_loop F n r4 of
                                       Inl e \<Rightarrow> Inl e
                                     | Inr (ps, r5) \<Rightarrow> Inr ((key, v) # ps, r5))
                                  else Inl JSONDecodeError)
                           else Inl JSONDecodeError))))"

text \<open>\<open>json.loads\<close>: one value, with whitespace around it and nothing else after it.\<close>

definition json_loads :: "'f float_ops \<Rightarrow> string \<Rightarrow> error + 'f pyval" where
  "json_loads F s =
     (case scan_once F (2 * length s + 1) (skip_ws s) of
        Inl e \<Rightarrow> Inl e
      | Inr (v, r) \<Rightarrow> if skip_ws r = [] then Inr v else Inl JSONDecodeError)"

subsection \<open>The configuration handler: \<open>JsonConfigHandler._parse_file\<close>\<close>

text \<open>
  What \<open>_parse_file\<close> acts on: the files that can be opened for reading, with their text; the
  file objects that are open, by path, the one opened last first; and the configuration store
  of the handler (\<open>self\<close>), of whatever type the inherited \<open>merge\<close> works on.
\<close>

record 'c env =
  files :: "string \<rightharpoonup> string"
  unclosed :: "string list"
  config :: 'c

text \<open>
  \<open>open(file_path)\<close>: an \<open>OSError\<close> when the file is missing or unreadable, otherwise a file
  object (its path and text), which is now open.
\<close>

definition py_open :: "string \<Rightarrow> 'c env \<Rightarrow> (error + string \<times> string) \<times> 'c env" where
  "py_open file_path w =
     (case files w file_path of
        None \<Rightarrow> (Inl OSError, w)
      | Some text \<Rightarrow> (Inr (file_path, text), w\<lparr>unclosed := file_path # unclosed w\<rparr>))"

text \<open>\<open>json.load(fp)\<close> is \<open>json.loads(fp.read())\<close>; reading does not close the file.\<close>

definition json_load :: "'f float_ops \<Rightarrow> string \<times> string \<Rightarrow> error + 'f pyval" where
  "json_load F fp = json_loads F (snd fp)"

text \<open>
  No statement of \<open>_parse_file\<close> closes the file object. The interpreter does: the object is a
  temporary, the argument of \<open>json.load\<close>, and CPython finalises an object, here closing the
  file, as soon as nothing refers to it (\<open>py_finalize\<close>). That is when \<open>json.load\<close> has
  returned, before \<open>merge\<close> is called. When \<open>json.load\<close> raises, its frame still refers to the
  object and the traceback of the exception holds the frame: the file stays open for as long as
  the exception is alive, so it is open when the error reaches the caller.
\<close>

definition py_finalize :: "string \<times> string \<Rightarrow> 'c env \<Rightarrow> 'c env" where
  "py_finalize fp w = w\<lparr>unclosed := remove1 (fst fp) (unclosed w)\<rparr>"

text \<open>
  \<open>_parse_file(self, file_path)\<close>, here \<open>parse_file\<close>:
  \<open>self.merge(json.load(open(file_path)))\<close>, then \<open>return True\<close>. The arguments are
  evaluated innermost first, and the first exception ends the call. \<open>merge\<close> is inherited from
  \<open>ConfigParserConfigHandler\<close>, which is not part of this file: it is a parameter here, a
  function from the parsed value and the store to an outcome and the store it leaves.
\<close>

definition parse_file ::
  "'f float_ops \<Rightarrow> ('f pyval \<Rightarrow> 'c \<Rightarrow> (error + unit) \<times> 'c) \<Rightarrow> string \<Rightarrow> 'c env
     \<Rightarrow> (error + bool) \<times> 'c env" where
  "parse_file F merge file_path w =
     (case py_open file_path w of
        (Inl e, w1) \<Rightarrow> (Inl e, w1)
      | (Inr fp, w1) \<Rightarrow>
          (case json_load F fp of
             Inl e \<Rightarrow> (Inl e, w1)
           | Inr obj \<Rightarrow>
               (let w2 = py_finalize fp w1 in
                case merge obj (config w2) of
                  (Inl e, c) \<Rightarrow> (Inl e, w2\<lparr>config := c\<rparr>)
                | (Inr u, c) \<Rightarrow> (Inr True, w2\<lparr>config := c\<rparr>))))"

text \<open>
  Modelled from the spec: the Configuration Store and its \<open>merge\<close>, which live in the
  framework's \<open>ConfigParserConfigHandler\<close> and are missing from the sources. The store is ``a
  mutable mapping from section name to a mapping of key to value''; merging ``merges every
  section/key/value into the existing Configuration Store, overwriting any pre-existing value
  for the same section+key'', leaves alone the sections and keys the file does not mention and
  never deletes. A section of the file that is not itself a mapping carries no key/value pair
  and merges nothing; a value that is no mapping at all cannot be merged.
\<close>

type_synonym 'f store = "nat list \<rightharpoonup> (nat list \<rightharpoonup> 'f pyval)"

definition cfg_get :: "'f store \<Rightarrow> nat list \<Rightarrow> nat list \<Rightarrow> 'f pyval option" where
  "cfg_get st sec key = (case st sec of None \<Rightarrow> None | Some m \<Rightarrow> m key)"

definition add_section :: "nat list \<Rightarrow> 'f store \<Rightarrow> 'f store" where
  "add_section sec st = (case st sec of None \<Rightarrow> st(sec \<mapsto> Map.empty) | Some m \<Rightarrow> st)"

definition cfg_set :: "nat list \<Rightarrow> nat list \<Rightarrow> 'f pyval \<Rightarrow> 'f store \<Rightarrow> 'f store" where
  "cfg_set sec key v st =
     st(sec \<mapsto> (case st sec of None \<Rightarrow> Map.empty | Some m \<Rightarrow> m)(key \<mapsto> v))"

fun merge_keys :: "nat list \<Rightarrow> ('f pyval \<times> 'f pyval) list \<Rightarrow> 'f store \<Rightarrow> 'f store" where
  "merge_keys sec [] st = st"
| "merge_keys sec ((PyStr key, v) # kvs) st = merge_keys sec kvs (cfg_set sec key v st)"
| "merge_keys sec (kv # kvs) st = merge_keys sec kvs st"

fun merge_sections :: "('f pyval \<times> 'f pyval) list \<Rightarrow> 'f store \<Rightarrow> 'f store" where
  "merge_sections [] st = st"
| "merge_sections ((PyStr sec, PyDict kvs) # secs) st =
     merge_sections secs (merge_keys sec kvs (add_section sec st))"
| "merge_sections (s # secs) st = merge_sections secs st"

fun merge :: "'f pyval \<Rightarrow> 'f store \<Rightarrow> (error + unit) \<times> 'f store" where
  "merge (PyDict secs) st = (Inr (), merge_sections secs st)"
| "merge v st = (Inl AttributeError, st)"

subsection \<open>The command line hook: \<open>set_output_handler\<close>\<close>

text \<open>
  Of the application object the hook reads \<open>app._meta.argv\<close> and assigns
  \<open>app._meta.output_handler\<close>; everything else is the record's extension. The framework's
  \<open>app._setup_output_handler()\<close> is not part of this file and is a parameter.
\<close>

record app =
  argv :: "string list"
  output_handler :: string

definition set_output_handler ::
  "('a app_scheme \<Rightarrow> (error + unit) \<times> 'a app_scheme) \<Rightarrow> 'a app_scheme
     \<Rightarrow> (error + unit) \<times> 'a app_scheme" where
  "set_output_handler setup_output_handler a =
     (if ''--json'' \<in> set (argv a)
      then setup_output_handler (a\<lparr>output_handler := ''json''\<rparr>)
      else (Inr (), a))"

subsection \<open>Concrete instances for evaluation\<close>

text \<open>
  An instance of \<open>float_ops\<close> for evaluating examples: a finite float is named by its decimal
  literal.
\<close>

definition text_floats :: "string float_ops" where
  "text_floats = \<lparr>float_repr = (\<lambda>s. s), float_of_str = Finite\<rparr>"

text \<open>
  A file system with the configuration file of the spec's example and a file that is not
  JSON, and a store that holds section \<open>A\<close> with \<open>x = 1\<close> and \<open>y = 2\<close>.
\<close>

definition example_env :: "string store env" where
  \<open>example_env =
     \<lparr>files = [''app.json'' \<mapsto> ''{"A": {"x": "9", "z": "3"}}'', ''bad.json'' \<mapsto> ''{not json''],
      unclosed = [],
      config = [str ''A'' \<mapsto> [str ''x'' \<mapsto> PyStr (str ''1''), str ''y'' \<mapsto> PyStr (str ''2'')]]\<rparr>\<close>

text \<open>A data dictionary with a non-ASCII string, a negative int, a float and nested values.\<close>

definition example_data :: "string pyval" where
  "example_data =
     PyDict [(PyStr (str ''name''), PyStr [99, 97, 102, 233]),
             (PyStr (str ''tags''),
              PyList [PyInt (- 12), PyFloat (Finite ''1.5''), PyBool True, PyNone, PyDict []])]"


subsection \<open>Notions the properties are stated with\<close>

text \<open>
  A Python dictionary holds each key once. \<open>py_wf\<close> says so of every dictionary in a value;
  the list of items of the model stands for a dictionary only then.
\<close>

fun py_wf :: "'f pyval \<Rightarrow> bool"
  and py_wf_list :: "'f pyval list \<Rightarrow> bool"
  and py_wf_items :: "('f pyval \<times> 'f pyval) list \<Rightarrow> bool"
where
  "py_wf (PyList xs) = py_wf_list xs"
| "py_wf (PyTuple xs) = py_wf_list xs"
| "py_wf (PyDict kvs) = (distinct (map fst kvs) \<and> py_wf_items kvs)"
| "py_wf PyNone = True"
| "py_wf (PyBool b) = True"
| "py_wf (PyInt i) = True"
| "py_wf (PyFloat x) = True"
| "py_wf (PyStr s) = True"
| "py_wf (PyObject c) = True"
| "py_wf_list [] = True"
| "py_wf_list (x # xs) = (py_wf x \<and> py_wf_list xs)"
| "py_wf_items [] = True"
| "py_wf_items ((k, v) # kvs) = (py_wf v \<and> py_wf_items kvs)"

text \<open>
  The value that a parsed configuration file, the items \<open>secs\<close> of its top-level object,
  gives for a section and a key: none when the file does not mention the section, or the
  section is not an object, or the section does not mention the key.
\<close>

definition file_value ::
  "('f pyval \<times> 'f pyval) list \<Rightarrow> nat list \<Rightarrow> nat list \<Rightarrow> 'f pyval option" where
  "file_value secs sec key =
     (case map_of secs (PyStr sec) of
        Some (PyDict kvs) \<Rightarrow> map_of kvs (PyStr key)
      | _ \<Rightarrow> None)"

text \<open>
  Valid JSON, by the grammar of RFC 8259: a value is \<open>null\<close>, \<open>true\<close>, \<open>false\<close>, a number, a
  string, an array or an object, with whitespace allowed around it and around the six
  structural characters. Strings and numbers have the syntax the decoder reads (\<open>scanstring\<close>,
  \<open>match_number\<close>); the grammar has no other literal, so it has no \<open>NaN\<close> and no \<open>Infinity\<close>.
  \<open>json_value\<close> gives the text that follows one value, \<open>json_elements\<close> and \<open>json_members\<close> the
  text that follows the closing bracket of an array or an object. The counter bounds the
  recursion as the decoder's does and is large enough for every text: a text accepted with any
  counter is accepted with the one \<open>valid_json\<close> uses.
\<close>

definition json_literal :: "string \<Rightarrow> string option" where
  "json_literal s =
     (if take 4 s = ''null'' then Some (drop 4 s)
      else if take 4 s = ''true'' then Some (drop 4 s)
      else if take 5 s = ''false'' then Some (drop 5 s)
      else (case match_number s of Some (integer, frac, exp, r) \<Rightarrow> Some r | None \<Rightarrow> None))"

fun json_value :: "nat \<Rightarrow> string \<Rightarrow> string option"
  and json_elements :: "nat \<Rightarrow> string \<Rightarrow> string option"
  and json_members :: "nat \<Rightarrow> string \<Rightarrow> string option"
where
  "json_value 0 s = None"
| "json_value (Suc n) [] = None"
| "json_value (Suc n) (c # cs) =
     (if c = dq then
        (case scanstring cs of Inl e \<Rightarrow> None | Inr (t, r) \<Rightarrow> Some r)
      else if c = CHR ''{'' then
        (case skip_ws cs of
           [] \<Rightarrow> None
         | x # r \<Rightarrow>
             if x = CHR ''}'' then Some r
             else if x = dq then json_members n r
             else None)
      else if c = CHR ''['' then
        (case skip_ws cs of
           [] \<Rightarrow> None
         | x # r \<Rightarrow>
             if x = CHR '']'' then Some r
             else json_elements n (x # r))
      else json_literal (c # cs))"
| "json_elements 0 s = None"
| "json_elements (Suc n) s =
     (case json_value n s of
        None \<Rightarrow> None
      | Some r \<Rightarrow>
          (case skip_ws r of
             [] \<Rightarrow> None
           | d # r1 \<Rightarrow>
               if d = CHR '']'' then Some r1
               else if d = CHR '','' then json_elements n (skip_ws r1)
               else None))"
| "json_members 0 s = None"
| "json_members (Suc n) s =
     (case scanstring s of
        Inl e \<Rightarrow> None
      | Inr (key, r) \<Rightarrow>
          (case skip_ws r of
             [] \<Rightarrow> None
           | c # r1 \<Rightarrow>
               if c \<noteq> CHR '':'' then None
               else
                 (case json_value n (skip_ws r1) of
                    None \<Rightarrow> None
                  | Some r2 \<Rightarrow>
                      (case skip_ws r2 of
                         [] \<Rightarrow> None
                       | d # r3 \<Rightarrow>
                           if d = CHR ''}'' then Some r3
                           else if d = CHR '','' then
                             (case skip_ws r3 of
                                [] \<Rightarrow> None
                              | q # r4 \<Rightarrow> if q = dq then json_members n r4 else None)
                           else None))))"

definition valid_json :: "string \<Rightarrow> bool" where
  "valid_json s =
     (case json_value (2 * length s + 1) (skip_ws s) of
        None \<Rightarrow> False
      | Some r \<Rightarrow> skip_ws r = [])"

text \<open>
  The JSON value model of the spec (``strings, numbers, booleans, null, nested mappings,
  sequences'', a mapping having string keys), as a set of Python values:
  \<^item> a string is text: a sequence of Unicode scalar values, with no surrogate code point;
  \<^item> a number is an int or a finite float; of the float, \<open>float_as_number\<close> asks what the
    model leaves to \<open>float_ops\<close>: that its \<open>repr\<close> is a JSON number with a fraction or an
    exponent, and that reading this text gives the float back;
  \<^item> a sequence is a list (a tuple is written as an array and read back as a list, which
    Python does not hold equal to the tuple);
  \<^item> a mapping is a dictionary whose keys are strings.
\<close>

definition unicode_scalar :: "nat \<Rightarrow> bool" where
  "unicode_scalar c = (c < 0xD800 \<or> (0xDFFF < c \<and> c < 0x110000))"

definition float_as_number :: "'f float_ops \<Rightarrow> 'f \<Rightarrow> bool" where
  "float_as_number F x =
     (case match_number (float_repr F x) of
        None \<Rightarrow> False
      | Some (i, f, e, r) \<Rightarrow>
          r = [] \<and> (f \<noteq> [] \<or> e \<noteq> []) \<and> float_of_str F (i @ f @ e) = Finite x)"

fun json_representable :: "'f float_ops \<Rightarrow> 'f pyval \<Rightarrow> bool"
  and representable_list :: "'f float_ops \<Rightarrow> 'f pyval list \<Rightarrow> bool"
  and representable_items :: "'f float_ops \<Rightarrow> ('f pyval \<times> 'f pyval) list \<Rightarrow> bool"
where
  "json_representable F PyNone = True"
| "json_representable F (PyBool b) = True"
| "json_representable F (PyInt i) = True"
| "json_representable F (PyFloat x) =
     (case x of Finite f \<Rightarrow> float_as_number F f | _ \<Rightarrow> False)"
| "json_representable F (PyStr s) = list_all unicode_scalar s"
| "json_representable F (PyList xs) = representable_list F xs"
| "json_representable F (PyTuple xs) = False"
| "json_representable F (PyDict kvs) = (distinct (map fst kvs) \<and> representable_items F kvs)"
| "json_representable F (PyObject c) = False"
| "representable_list F [] = True"
| "representable_list F (x # xs) = (json_representable F x \<and> representable_list F xs)"
| "representable_items F [] = True"
| "representable_items F ((k, v) # kvs) =
     ((case k of PyStr s \<Rightarrow> list_all unicode_scalar s | _ \<Rightarrow> False)
      \<and> json_representable F v \<and> representable_items F kvs)"

text \<open>
  What \<open>json.dumps\<close> has an encoding for: every value built from \<open>None\<close>, bools, ints,
  floats, strings, lists, tuples and dictionaries whose keys are strings, floats, bools,
  \<open>None\<close> or ints (instances of classes derived from these types included, as they are the
  base type's values here). What it has none for is a \<open>PyObject\<close> anywhere in the value, and
  a dictionary key that is a tuple or a \<open>PyObject\<close> (a list or a dictionary cannot be a key
  in Python; as a key of the model it is refused as well).
\<close>

fun key_ok :: "'f pyval \<Rightarrow> bool" where
  "key_ok (PyStr s) = True"
| "key_ok (PyFloat x) = True"
| "key_ok (PyBool b) = True"
| "key_ok PyNone = True"
| "key_ok (PyInt i) = True"
| "key_ok (PyList xs) = False"
| "key_ok (PyTuple xs) = False"
| "key_ok (PyDict kvs) = False"
| "key_ok (PyObject c) = False"

fun encodable :: "'f pyval \<Rightarrow> bool"
  and encodable_list :: "'f pyval list \<Rightarrow> bool"
  and encodable_items :: "('f pyval \<times> 'f pyval) list \<Rightarrow> bool"
where
  "encodable PyNone = True"
| "encodable (PyBool b) = True"
| "encodable (PyInt i) = True"
| "encodable (PyFloat x) = True"
| "encodable (PyStr s) = True"
| "encodable (PyList xs) = encodable_list xs"
| "encodable (PyTuple xs) = encodable_list xs"
| "encodable (PyDict kvs) = encodable_items kvs"
| "encodable (PyObject c) = False"
| "encodable_list [] = True"
| "encodable_list (x # xs) = (encodable x \<and> encodable_list xs)"
| "encodable_items [] = True"
| "encodable_items ((k, v) # kvs) = (key_ok k \<and> encodable v \<and> encodable_items kvs)"

text \<open>
  Where a value's text begins and ends, for the proof that the decoder reads back what the
  encoder writes: the character a value's text starts with (\<open>value_start\<close>; a number starts
  with a minus sign or a digit), and what may follow the text of a value inside the encoder's
  output, namely nothing, a comma or a closing bracket (\<open>at_delimiter\<close>). \<open>key_text\<close> is the
  text of a string key.
\<close>

definition at_delimiter :: "string \<Rightarrow> bool" where
  "at_delimiter r =
     (case r of [] \<Rightarrow> True | c # cs \<Rightarrow> c = CHR '','' \<or> c = CHR '']'' \<or> c = CHR ''}'')"

definition number_start :: "char \<Rightarrow> bool" where
  "number_start c = (c = CHR ''-'' \<or> is_digit c)"

definition value_start :: "char \<Rightarrow> bool" where
  "value_start c =
     (c = dq \<or> c = CHR ''{'' \<or> c = CHR ''['' \<or> c = CHR ''n'' \<or> c = CHR ''t'' \<or> c = CHR ''f''
      \<or> number_start c)"

definition starts_value :: "string \<Rightarrow> bool" where
  "starts_value s = (case s of [] \<Rightarrow> False | c # cs \<Rightarrow> value_start c)"

definition key_text :: "'f pyval \<Rightarrow> nat list" where
  "key_text k = (case k of PyStr s \<Rightarrow> s | _ \<Rightarrow> [])"

section \<open>Properties\<close>

subsection \<open>The decoder consumes its input and fails only with \<open>JSONDecodeError\<close>\<close>

lemma length_skip_ws: "length (skip_ws s) \<le> length s"
  by (simp add: skip_ws_def length_dropWhile_le)

lemma skip_ws_Cons_length: "skip_ws s = x # r \<Longrightarrow> length r < length s"
  using length_skip_ws [of s] by simp

lemma cons_char_Inr: "cons_char x res = Inr (t, r) \<longleftrightarrow> (\<exists>t'. res = Inr (t', r) \<and> t = x # t')"
  by (auto simp: cons_char_def split: sum.splits)

lemma cons_char_Inl: "cons_char x res = Inl e \<longleftrightarrow> res = Inl e"
  by (auto simp: cons_char_def split: sum.splits)

lemma scanstring_length: "scanstring s = Inr (t, r) \<Longrightarrow> length r < length s"
proof (induction s arbitrary: t r rule: scanstring.induct)
  case 1
  then show ?case by simp
next
  case (2 c cs)
  then show ?case
    by (fastforce simp: cons_char_Inr split: if_splits option.splits prod.splits)
qed

lemma scanstring_error: "scanstring s = Inl e \<Longrightarrow> e = JSONDecodeError"
proof (induction s rule: scanstring.induct)
  case 1
  then show ?case by simp
next
  case (2 c cs)
  then show ?case
    by (auto simp: cons_char_Inl split: if_splits option.splits prod.splits)
qed

lemma match_integer_length: "match_integer s = Some (ds, r) \<Longrightarrow> length r < length s"
  by (auto simp: match_integer_def length_dropWhile_le less_Suc_eq_le split: list.splits if_splits)

lemma match_frac_length: "length (snd (match_frac s)) \<le> length s"
  by (auto simp: match_frac_def length_dropWhile_le le_SucI split: list.splits)

lemma match_sign_length: "length (snd (match_sign s)) \<le> length s"
  by (auto simp: match_sign_def split: list.splits)

lemma match_exp_length: "length (snd (match_exp s)) \<le> length s"
proof (cases s)
  case Nil
  then show ?thesis by (simp add: match_exp_def)
next
  case (Cons c r)
  have "length (dropWhile is_digit (snd (match_sign r))) \<le> length r"
    using length_dropWhile_le [of is_digit "snd (match_sign r)"] match_sign_length [of r]
    by linarith
  with Cons show ?thesis by (simp add: match_exp_def)
qed

lemma match_number_length:
  assumes "match_number s = Some (i, f, e, r)"
  shows "length r < length s"
proof -
  from assms obtain i' r1 where
    m: "(case s of [] \<Rightarrow> None
         | c # r \<Rightarrow> if c = CHR ''-''
             then (case match_integer r of None \<Rightarrow> None | Some (ds, r') \<Rightarrow> Some (c # ds, r'))
             else match_integer s) = Some (i', r1)"
    and r: "r = snd (match_exp (snd (match_frac r1)))"
    by (auto simp: match_number_def split: option.splits)
  from m have "length r1 < length s"
    by (auto split: list.splits if_splits option.splits dest: match_integer_length)
  moreover have "length r \<le> length r1"
    unfolding r using match_exp_length [of "snd (match_frac r1)"] match_frac_length [of r1]
    by linarith
  ultimately show ?thesis by linarith
qed

lemma take_eq_length: "take n s = t \<Longrightarrow> length t = n \<Longrightarrow> 0 < n \<Longrightarrow> length (drop n s) < length s"
  by (cases s) auto

lemma scan_atom_length: "scan_atom F s = Inr (v, r) \<Longrightarrow> length r < length s"
  unfolding scan_atom_def
  by (auto split: if_splits option.splits dest!: match_number_length dest: take_eq_length)

lemma scan_atom_error: "scan_atom F s = Inl e \<Longrightarrow> e = JSONDecodeError"
  unfolding scan_atom_def
  by (auto split: if_splits option.splits)

lemma scan_length:
  fixes F :: "'f float_ops"
  shows "scan_once F n s = Inr (v, r) \<Longrightarrow> length r < length s"
    and "array_loop F n s = Inr (vs, r) \<Longrightarrow> length r < length s"
    and "object_loop F n s = Inr (ps, r) \<Longrightarrow> length r < length s"
proof (induction F n s and F n s and F n s arbitrary: v r and vs r and ps r
       rule: scan_once_array_loop_object_loop.induct)
  case (1 F s)
  then show ?case by simp
next
  case (2 F n)
  then show ?case by simp
next
  case (3 F n c cs)
  show ?case
  proof (cases "c = dq")
    case True
    with 3(3) show ?thesis
      by (auto split: sum.splits dest: scanstring_length)
  next
    case ndq: False
    show ?thesis
    proof (cases "c = CHR ''{''")
      case True
      with ndq 3(3) 3(1) show ?thesis
        by (auto split: sum.splits list.splits if_splits dest!: skip_ws_Cons_length) fastforce
    next
      case nb: False
      show ?thesis
      proof (cases "c = CHR ''[''")
        case True
        with ndq nb 3(3) 3(2) show ?thesis
          using length_skip_ws [of cs]
          by (auto split: sum.splits list.splits if_splits dest!: skip_ws_Cons_length) fastforce
      next
        case False
        with ndq nb 3(3) show ?thesis
          by (auto dest: scan_atom_length)
      qed
    qed
  qed
next
  case (4 F s)
  then show ?case by simp
next
  case (5 F n s)
  from 5(3) obtain v0 r0 where a: "scan_once F n s = Inr (v0, r0)"
    by (auto split: sum.splits)
  from 5(1) [OF a] have l0: "length r0 < length s" .
  from 5(3) a obtain d r1 where b: "skip_ws r0 = d # r1"
    by (auto split: list.splits)
  from skip_ws_Cons_length [OF b] have l1: "length r1 < length r0" .
  show ?case
  proof (cases "d = CHR '']''")
    case True
    with 5(3) a b l0 l1 show ?thesis by auto
  next
    case False
    with 5(3) a b obtain vs' where c: "d = CHR '',''" "array_loop F n (skip_ws r1) = Inr (vs', r)"
      by (auto split: if_splits sum.splits)
    from 5(2) [OF a refl b False c(1) c(2)] have "length r < length (skip_ws r1)" .
    with length_skip_ws [of r1] l0 l1 show ?thesis by linarith
  qed
next
  case (6 F s)
  then show ?case by simp
next
  case (7 F n s)
  from 7(3) obtain key r0 where a: "scanstring s = Inr (key, r0)"
    by (auto split: sum.splits)
  from scanstring_length [OF a] have l0: "length r0 < length s" .
  from 7(3) a obtain c r1 where b: "skip_ws r0 = c # r1"
    by (auto split: list.splits)
  from skip_ws_Cons_length [OF b] have l1: "length r1 < length r0" .
  from 7(3) a b have cc: "\<not> c \<noteq> CHR '':''"
    by (auto split: if_splits)
  from 7(3) a b cc obtain v0 r2 where d: "scan_once F n (skip_ws r1) = Inr (v0, r2)"
    by (auto split: sum.splits)
  from 7(1) [OF a refl b cc d] length_skip_ws [of r1] have l2: "length r2 < length r1 + 1"
    by linarith
  from 7(3) a b cc d obtain d' r3 where e: "skip_ws r2 = d' # r3"
    by (auto split: list.splits)
  from skip_ws_Cons_length [OF e] have l3: "length r3 < length r2" .
  show ?case
  proof (cases "d' = CHR ''}''")
    case True
    with 7(3) a b cc d e l0 l1 l2 l3 show ?thesis by auto
  next
    case False
    with 7(3) a b cc d e have f: "d' = CHR '',''"
      by (auto split: if_splits)
    from 7(3) a b cc d e False f obtain q r4 where g: "skip_ws r3 = q # r4"
      by (auto split: list.splits)
    from skip_ws_Cons_length [OF g] have l4: "length r4 < length r3" .
    from 7(3) a b cc d e False f g have h: "q = dq"
      by (auto split: if_splits)
    from 7(3) a b cc d e False f g h obtain ps' where i: "object_loop F n r4 = Inr (ps', r)"
      by (auto split: sum.splits)
    from 7(2) [OF a refl b cc d refl e False f g h i] have "length r < length r4" .
    with l0 l1 l2 l3 l4 show ?thesis by linarith
  qed
qed

lemma scan_errors:
  fixes F :: "'f float_ops"
  shows "scan_once F n s = Inl e \<Longrightarrow> 2 * length s < n \<Longrightarrow> e = JSONDecodeError"
    and "array_loop F n s = Inl e \<Longrightarrow> 2 * length s + 1 < n \<Longrightarrow> e = JSONDecodeError"
    and "object_loop F n s = Inl e \<Longrightarrow> 2 * length s + 1 < n \<Longrightarrow> e = JSONDecodeError"
proof (induction F n s and F n s and F n s arbitrary: e and e and e
       rule: scan_once_array_loop_object_loop.induct)
  case (1 F s)
  then show ?case by simp
next
  case (2 F n)
  then show ?case by simp
next
  case (3 F n c cs)
  show ?case
  proof (cases "c = dq")
    case True
    with 3(3) show ?thesis
      by (auto split: sum.splits dest: scanstring_error)
  next
    case ndq: False
    show ?thesis
    proof (cases "c = CHR ''{''")
      case True
      show ?thesis
      proof (cases "skip_ws cs")
        case Nil
        with ndq True 3(3) show ?thesis by simp
      next
        case (Cons x r)
        from skip_ws_Cons_length [OF Cons] 3(4) have fuel: "2 * length r + 1 < n" by simp
        show ?thesis
        proof (cases "x = CHR ''}''")
          case True
          with ndq \<open>c = CHR ''{''\<close> Cons 3(3) show ?thesis by simp
        next
          case nclose: False
          show ?thesis
          proof (cases "x = dq")
            case True
            with ndq \<open>c = CHR ''{''\<close> Cons nclose 3(3)
            have "object_loop F n r = Inl e"
              by (auto split: sum.splits)
            from 3(1) [OF ndq \<open>c = CHR ''{''\<close> Cons nclose True this fuel] show ?thesis .
          next
            case False
            with ndq \<open>c = CHR ''{''\<close> Cons nclose 3(3) show ?thesis by simp
          qed
        qed
      qed
    next
      case nb: False
      show ?thesis
      proof (cases "c = CHR ''[''")
        case True
        show ?thesis
        proof (cases "skip_ws cs")
          case Nil
          with ndq nb True 3(3) show ?thesis by simp
        next
          case (Cons x r)
          from length_skip_ws [of cs] Cons 3(4) have fuel: "2 * length (x # r) + 1 < n" by simp
          show ?thesis
          proof (cases "x = CHR '']''")
            case True
            with ndq nb \<open>c = CHR ''[''\<close> Cons 3(3) show ?thesis by simp
          next
            case False
            with ndq nb \<open>c = CHR ''[''\<close> Cons 3(3)
            have "array_loop F n (x # r) = Inl e"
              by (auto split: sum.splits)
            from 3(2) [OF ndq nb \<open>c = CHR ''[''\<close> Cons False this fuel] show ?thesis .
          qed
        qed
      next
        case False
        with ndq nb 3(3) show ?thesis
          by (auto dest: scan_atom_error)
      qed
    qed
  qed
next
  case (4 F s)
  then show ?case by simp
next
  case (5 F n s)
  show ?case
  proof (cases "scan_once F n s")
    case (Inl e')
    with 5(3) have "e' = e" by simp
    with Inl 5(1) [of e] 5(4) show ?thesis by simp
  next
    case (Inr p)
    obtain v0 r0 where p: "p = (v0, r0)" by (cases p)
    with Inr have a: "scan_once F n s = Inr (v0, r0)" by simp
    from scan_length(1) [OF a] have l0: "length r0 < length s" .
    show ?thesis
    proof (cases "skip_ws r0")
      case Nil
      with a 5(3) show ?thesis by simp
    next
      case (Cons d r1)
      from skip_ws_Cons_length [OF Cons] have l1: "length r1 < length r0" .
      show ?thesis
      proof (cases "d = CHR '']''")
        case True
        with a Cons 5(3) show ?thesis by simp
      next
        case nclose: False
        show ?thesis
        proof (cases "d = CHR '',''")
          case True
          with a Cons nclose 5(3) have b: "array_loop F n (skip_ws r1) = Inl e"
            by (auto split: sum.splits)
          from length_skip_ws [of r1] l0 l1 5(4) have "2 * length (skip_ws r1) + 1 < n"
            by linarith
          from 5(2) [OF a refl Cons nclose True b this] show ?thesis .
        next
          case False
          with a Cons nclose 5(3) show ?thesis by simp
        qed
      qed
    qed
  qed
next
  case (6 F s)
  then show ?case by simp
next
  case (7 F n s)
  show ?case
  proof (cases "scanstring s")
    case (Inl e')
    with 7(3) have "e' = e" by simp
    with Inl scanstring_error show ?thesis by blast
  next
    case (Inr p)
    obtain key r0 where "p = (key, r0)" by (cases p)
    with Inr have a: "scanstring s = Inr (key, r0)" by simp
    from scanstring_length [OF a] have l0: "length r0 < length s" .
    show ?thesis
    proof (cases "skip_ws r0")
      case Nil
      with a 7(3) show ?thesis by simp
    next
      case (Cons c r1)
      from skip_ws_Cons_length [OF Cons] have l1: "length r1 < length r0" .
      show ?thesis
      proof (cases "c \<noteq> CHR '':''")
        case True
        with a Cons 7(3) show ?thesis by simp
      next
        case cc: False
        show ?thesis
        proof (cases "scan_once F n (skip_ws r1)")
          case (Inl e')
          with a Cons cc 7(3) have "e' = e" by simp
          moreover from length_skip_ws [of r1] l0 l1 7(4) have "2 * length (skip_ws r1) < n"
            by linarith
          ultimately show ?thesis using 7(1) [OF a refl Cons cc, of e] Inl by simp
        next
          case (Inr p2)
          obtain v0 r2 where "p2 = (v0, r2)" by (cases p2)
          with Inr have d: "scan_once F n (skip_ws r1) = Inr (v0, r2)" by simp
          from scan_length(1) [OF d] length_skip_ws [of r1] have l2: "length r2 < length r1"
            by linarith
          show ?thesis
          proof (cases "skip_ws r2")
            case Nil
            with a Cons cc d 7(3) show ?thesis by simp
          next
            case e3: (Cons d' r3)
            from skip_ws_Cons_length [OF e3] have l3: "length r3 < length r2" .
            show ?thesis
            proof (cases "d' = CHR ''}''")
              case True
              with a Cons cc d e3 7(3) show ?thesis by simp
            next
              case nclose: False
              show ?thesis
              proof (cases "d' = CHR '',''")
                case False
                with a Cons cc d e3 nclose 7(3) show ?thesis by simp
              next
                case comma: True
                show ?thesis
                proof (cases "skip_ws r3")
                  case Nil
                  with a Cons cc d e3 nclose comma 7(3) show ?thesis by simp
                next
                  case g: (Cons q r4)
                  from skip_ws_Cons_length [OF g] have l4: "length r4 < length r3" .
                  show ?thesis
                  proof (cases "q = dq")
                    case False
                    with a Cons cc d e3 nclose comma g 7(3) show ?thesis by simp
                  next
                    case True
                    with a Cons cc d e3 nclose comma g 7(3)
                    have i: "object_loop F n r4 = Inl e"
                      by (auto split: sum.splits)
                    from l0 l1 l2 l3 l4 7(4) have "2 * length r4 + 1 < n" by linarith
                    from 7(2) [OF a refl Cons cc d refl e3 nclose comma g True i this]
                    show ?thesis .
                  qed
                qed
              qed
            qed
          qed
        qed
      qed
    qed
  qed
qed

lemma json_loads_error: "json_loads F s = Inl e \<Longrightarrow> e = JSONDecodeError"
proof -
  assume a: "json_loads F s = Inl e"
  have fuel: "2 * length (skip_ws s) < 2 * length s + 1"
    using length_skip_ws [of s] by linarith
  show ?thesis
  proof (cases "scan_once F (2 * length s + 1) (skip_ws s)")
    case (Inl e')
    with a have "e' = e" by (simp add: json_loads_def)
    with Inl scan_errors(1) [OF _ fuel] show ?thesis by blast
  next
    case (Inr p)
    with a show ?thesis
      by (auto simp: json_loads_def split: prod.splits if_splits)
  qed
qed

theorem json_loads_no_RecursionError: "json_loads F s \<noteq> Inl RecursionError"
  using json_loads_error [of F s RecursionError] by auto

subsection \<open>The decoder accepts every valid JSON text\<close>

lemma json_literal_scan_atom:
  "json_literal s = Some r \<Longrightarrow> \<exists>v. scan_atom F s = Inr (v, r)"
  by (auto simp: json_literal_def scan_atom_def split: if_splits option.splits)

lemma json_value_scan:
  fixes F :: "'f float_ops"
  shows "json_value n s = Some r \<Longrightarrow> \<exists>v. scan_once F n s = Inr (v, r)"
    and "json_elements n s = Some r \<Longrightarrow> \<exists>vs. array_loop F n s = Inr (vs, r)"
    and "json_members n s = Some r \<Longrightarrow> \<exists>ps. object_loop F n s = Inr (ps, r)"
proof (induction n s and n s and n s arbitrary: r and r and r
       rule: json_value_json_elements_json_members.induct)
  case (1 s)
  then show ?case by simp
next
  case (2 n)
  then show ?case by simp
next
  case (3 n c cs)
  show ?case
  proof (cases "c = dq")
    case True
    with 3(3) show ?thesis
      by (auto split: sum.splits)
  next
    case ndq: False
    show ?thesis
    proof (cases "c = CHR ''{''")
      case True
      with ndq 3(3) 3(1) show ?thesis
        by (auto split: list.splits if_splits) fastforce
    next
      case nb: False
      show ?thesis
      proof (cases "c = CHR ''[''")
        case True
        with ndq nb 3(3) 3(2) show ?thesis
          by (auto split: list.splits if_splits) fastforce
      next
        case False
        with ndq nb 3(3) json_literal_scan_atom [of "c # cs" r F] show ?thesis
          by auto
      qed
    qed
  qed
next
  case (4 s)
  then show ?case by simp
next
  case (5 n s)
  from 5(3) obtain r0 where a: "json_value n s = Some r0"
    by (auto split: option.splits)
  from 5(1) [OF a] obtain v0 where a': "scan_once F n s = Inr (v0, r0)" by blast
  from 5(3) a obtain d r1 where b: "skip_ws r0 = d # r1"
    by (auto split: list.splits)
  show ?case
  proof (cases "d = CHR '']''")
    case True
    with 5(3) a a' b show ?thesis by auto
  next
    case False
    with 5(3) a b have c: "d = CHR '',''" "json_elements n (skip_ws r1) = Some r"
      by (auto split: if_splits)
    from 5(2) [OF a b False c(1) c(2)] obtain vs where "array_loop F n (skip_ws r1) = Inr (vs, r)"
      by blast
    with a' b False c(1) show ?thesis by simp
  qed
next
  case (6 s)
  then show ?case by simp
next
  case (7 n s)
  from 7(3) obtain key r0 where a: "scanstring s = Inr (key, r0)"
    by (auto split: sum.splits)
  from 7(3) a obtain c r1 where b: "skip_ws r0 = c # r1"
    by (auto split: list.splits)
  from 7(3) a b have cc: "\<not> c \<noteq> CHR '':''"
    by (auto split: if_splits)
  from 7(3) a b cc obtain r2 where d: "json_value n (skip_ws r1) = Some r2"
    by (auto split: option.splits)
  from 7(1) [OF a refl b cc d] obtain v0 where d': "scan_once F n (skip_ws r1) = Inr (v0, r2)"
    by blast
  from 7(3) a b cc d obtain d' r3 where e: "skip_ws r2 = d' # r3"
    by (auto split: list.splits)
  show ?case
  proof (cases "d' = CHR ''}''")
    case True
    with 7(3) a b cc d d' e show ?thesis by auto
  next
    case False
    with 7(3) a b cc d e have f: "d' = CHR '',''"
      by (auto split: if_splits)
    from 7(3) a b cc d e False f obtain q r4 where g: "skip_ws r3 = q # r4"
      by (auto split: list.splits)
    from 7(3) a b cc d e False f g have h: "q = dq"
      by (auto split: if_splits)
    from 7(3) a b cc d e False f g h have i: "json_members n r4 = Some r"
      by simp
    from 7(2) [OF a refl b cc d e False f g h i] obtain ps where "object_loop F n r4 = Inr (ps, r)"
      by blast
    with a b cc d' e False f g h show ?thesis by simp
  qed
qed



lemma json_value_length:
  "json_value n s = Some r \<Longrightarrow> length r < length s"
  using json_value_scan(1) [of n s r text_floats] scan_length(1) by blast

lemma json_fuel:
  shows "json_value n s = Some r \<Longrightarrow> 2 * length s < m \<Longrightarrow> json_value m s = Some r"
    and "json_elements n s = Some r \<Longrightarrow> 2 * length s + 1 < m \<Longrightarrow> json_elements m s = Some r"
    and "json_members n s = Some r \<Longrightarrow> 2 * length s + 1 < m \<Longrightarrow> json_members m s = Some r"
proof (induction n s and n s and n s arbitrary: r m and r m and r m
       rule: json_value_json_elements_json_members.induct)
  case (1 s)
  then show ?case by simp
next
  case (2 n)
  then show ?case by simp
next
  case (3 n c cs)
  from 3(4) obtain m' where m: "m = Suc m'" and fuel: "2 * length cs + 1 < m'"
    by (cases m) auto
  show ?case
  proof (cases "c = dq")
    case True
    with 3(3) show ?thesis
      by (simp add: m)
  next
    case ndq: False
    show ?thesis
    proof (cases "c = CHR ''{''")
      case True
      show ?thesis
      proof (cases "skip_ws cs")
        case Nil
        with ndq True 3(3) show ?thesis by simp
      next
        case (Cons x r0)
        from skip_ws_Cons_length [OF Cons] fuel have f: "2 * length r0 + 1 < m'" by simp
        show ?thesis
        proof (cases "x = CHR ''}''")
          case True
          with ndq \<open>c = CHR ''{''\<close> Cons 3(3) show ?thesis by (simp add: m)
        next
          case nclose: False
          show ?thesis
          proof (cases "x = dq")
            case True
            with ndq \<open>c = CHR ''{''\<close> Cons nclose 3(3) have "json_members n r0 = Some r"
              by simp
            from 3(1) [OF ndq \<open>c = CHR ''{''\<close> Cons nclose True this f]
            show ?thesis
              using ndq \<open>c = CHR ''{''\<close> Cons nclose True by (simp add: m)
          next
            case False
            with ndq \<open>c = CHR ''{''\<close> Cons nclose 3(3) show ?thesis by simp
          qed
        qed
      qed
    next
      case nb: False
      show ?thesis
      proof (cases "c = CHR ''[''")
        case True
        show ?thesis
        proof (cases "skip_ws cs")
          case Nil
          with ndq nb True 3(3) show ?thesis by simp
        next
          case (Cons x r0)
          from length_skip_ws [of cs] Cons fuel have f: "2 * length (x # r0) + 1 < m'" by simp
          show ?thesis
          proof (cases "x = CHR '']''")
            case True
            with ndq nb \<open>c = CHR ''[''\<close> Cons 3(3) show ?thesis by (simp add: m)
          next
            case False
            with ndq nb \<open>c = CHR ''[''\<close> Cons 3(3) have "json_elements n (x # r0) = Some r"
              by simp
            from 3(2) [OF ndq nb \<open>c = CHR ''[''\<close> Cons False this f]
            show ?thesis
              using ndq nb \<open>c = CHR ''[''\<close> Cons False by (simp add: m)
          qed
        qed
      next
        case False
        with ndq nb 3(3) show ?thesis
          by (simp add: m)
      qed
    qed
  qed
next
  case (4 s)
  then show ?case by simp
next
  case (5 n s)
  from 5(4) obtain m' where m: "m = Suc m'" and fuel: "2 * length s < m'"
    by (cases m) auto
  from 5(3) obtain r0 where a: "json_value n s = Some r0"
    by (auto split: option.splits)
  from 5(1) [OF a fuel] have a': "json_value m' s = Some r0" .
  from json_value_length [OF a] have l0: "length r0 < length s" .
  from 5(3) a obtain d r1 where b: "skip_ws r0 = d # r1"
    by (auto split: list.splits)
  from skip_ws_Cons_length [OF b] have l1: "length r1 < length r0" .
  show ?case
  proof (cases "d = CHR '']''")
    case True
    with 5(3) a a' b show ?thesis by (simp add: m)
  next
    case False
    with 5(3) a b have c: "d = CHR '',''" "json_elements n (skip_ws r1) = Some r"
      by (auto split: if_splits)
    from length_skip_ws [of r1] l0 l1 fuel have "2 * length (skip_ws r1) + 1 < m'"
      by linarith
    from 5(2) [OF a b False c(1) c(2) this] a' b False c(1) show ?thesis
      by (simp add: m)
  qed
next
  case (6 s)
  then show ?case by simp
next
  case (7 n s)
  from 7(4) obtain m' where m: "m = Suc m'" and fuel: "2 * length s < m'"
    by (cases m) auto
  from 7(3) obtain key r0 where a: "scanstring s = Inr (key, r0)"
    by (auto split: sum.splits)
  from scanstring_length [OF a] have l0: "length r0 < length s" .
  from 7(3) a obtain c r1 where b: "skip_ws r0 = c # r1"
    by (auto split: list.splits)
  from skip_ws_Cons_length [OF b] have l1: "length r1 < length r0" .
  from 7(3) a b have cc: "\<not> c \<noteq> CHR '':''"
    by (auto split: if_splits)
  from 7(3) a b cc obtain r2 where d: "json_value n (skip_ws r1) = Some r2"
    by (auto split: option.splits)
  from length_skip_ws [of r1] l0 l1 fuel have "2 * length (skip_ws r1) < m'"
    by linarith
  from 7(1) [OF a refl b cc d this] have d': "json_value m' (skip_ws r1) = Some r2" .
  from json_value_length [OF d] length_skip_ws [of r1] have l2: "length r2 < length r1"
    by linarith
  from 7(3) a b cc d obtain d' r3 where e: "skip_ws r2 = d' # r3"
    by (auto split: list.splits)
  from skip_ws_Cons_length [OF e] have l3: "length r3 < length r2" .
  show ?case
  proof (cases "d' = CHR ''}''")
    case True
    with 7(3) a b cc d d' e show ?thesis by (simp add: m)
  next
    case False
    with 7(3) a b cc d e have f: "d' = CHR '',''"
      by (auto split: if_splits)
    from 7(3) a b cc d e False f obtain q r4 where g: "skip_ws r3 = q # r4"
      by (auto split: list.splits)
    from skip_ws_Cons_length [OF g] have l4: "length r4 < length r3" .
    from 7(3) a b cc d e False f g have h: "q = dq"
      by (auto split: if_splits)
    from 7(3) a b cc d e False f g h have i: "json_members n r4 = Some r"
      by simp
    from l0 l1 l2 l3 l4 fuel have "2 * length r4 + 1 < m'" by linarith
    from 7(2) [OF a refl b cc d e False f g h i this] a b cc d' e False f g h show ?thesis
      by (simp add: m)
  qed
qed

text \<open>
  The recogniser's counter is no restriction: a text that is accepted with some counter is
  accepted with the one \<^const>\<open>valid_json\<close> uses.
\<close>

lemma valid_json_iff:
  "valid_json s \<longleftrightarrow> (\<exists>n r. json_value n (skip_ws s) = Some r \<and> skip_ws r = [])"
proof
  assume "valid_json s"
  then show "\<exists>n r. json_value n (skip_ws s) = Some r \<and> skip_ws r = []"
    by (auto simp: valid_json_def split: option.splits)
next
  assume "\<exists>n r. json_value n (skip_ws s) = Some r \<and> skip_ws r = []"
  then obtain n r where a: "json_value n (skip_ws s) = Some r" and b: "skip_ws r = []"
    by blast
  have "2 * length (skip_ws s) < 2 * length s + 1"
    using length_skip_ws [of s] by linarith
  from json_fuel(1) [OF a this] b show "valid_json s"
    by (simp add: valid_json_def)
qed

lemma valid_json_example: \<open>valid_json ''{"A": {"x": "9", "z": [1.5e3, true, null, -0]}}''\<close>
  by code_simp

subsection \<open>The output handler\<close>

text \<open>
  C7. Whatever \<open>sys.stdout\<close> and \<open>sys.stderr\<close> were redirected to before the call, after
  \<open>render\<close> they are the streams saved in the backend, and the saved streams themselves are
  as they were.
\<close>

theorem render_restores_streams:
  "sys_stdout (snd (render F m d t p)) = saved_stdout p \<and>
   sys_stderr (snd (render F m d t p)) = saved_stderr p \<and>
   saved_stdout (snd (render F m d t p)) = saved_stdout p \<and>
   saved_stderr (snd (render F m d t p)) = saved_stderr p"
  by (simp add: render_def LOG_debug_def Let_def)

text \<open>
  C8. The template is ignored: two calls of \<open>render\<close> on the same data and the same process
  state give the same outcome and the same final state, whatever the two templates are.
\<close>

theorem render_ignores_template:
  "render F m d t1 p = render F m d t2 p"
  by (simp add: render_def)

text \<open>
  C10. When \<open>render\<close> raises, the streams have been restored all the same: the assignments
  come before the call of \<open>json.dumps\<close>.
\<close>

theorem render_restores_streams_on_error:
  "fst (render F m d t p) = Inl e \<Longrightarrow>
   sys_stdout (snd (render F m d t p)) = saved_stdout p \<and>
   sys_stderr (snd (render F m d t p)) = saved_stderr p"
  by (simp add: render_def LOG_debug_def Let_def)

theorem render_restores_streams_on_error_witness:
  "fst (render text_floats ''cement.ext.ext_json''
          (PyDict [(PyStr (str ''conn''), PyObject ''socket'')]) ()
          \<lparr>sys_stdout = 7, sys_stderr = 8, saved_stdout = 1, saved_stderr = 2, debug_log = []\<rparr>)
     = Inl TypeError \<and>
   sys_stdout (snd (render text_floats ''cement.ext.ext_json''
          (PyDict [(PyStr (str ''conn''), PyObject ''socket'')]) ()
          \<lparr>sys_stdout = 7, sys_stderr = 8, saved_stdout = 1, saved_stderr = 2, debug_log = []\<rparr>))
     = 1 \<and>
   sys_stderr (snd (render text_floats ''cement.ext.ext_json''
          (PyDict [(PyStr (str ''conn''), PyObject ''socket'')]) ()
          \<lparr>sys_stdout = 7, sys_stderr = 8, saved_stdout = 1, saved_stderr = 2, debug_log = []\<rparr>))
     = 2"
proof -
  have raised: "fst (render text_floats ''cement.ext.ext_json''
          (PyDict [(PyStr (str ''conn''), PyObject ''socket'')]) ()
          \<lparr>sys_stdout = 7, sys_stderr = 8, saved_stdout = 1, saved_stderr = 2, debug_log = []\<rparr>)
     = Inl TypeError"
    by (simp add: render_def Let_def)
  from render_restores_streams_on_error [OF raised] raised show ?thesis
    by simp
qed

subsection \<open>The configuration handler\<close>


lemma loads_config_example: \<open>json_loads text_floats ''{"A": {"x": "9", "z": "3"}}'' =
   Inr (PyDict [(PyStr (str ''A''), PyDict [(PyStr (str ''x''), PyStr (str ''9'')), (PyStr (str ''z''), PyStr (str ''3''))])])\<close>
  by code_simp





lemma parse_file_example:
  "parse_file text_floats merge ''app.json'' example_env =
     (Inr True,
      example_env\<lparr>config := merge_sections
                     [(PyStr (str ''A''),
                       PyDict [(PyStr (str ''x''), PyStr (str ''9'')),
                               (PyStr (str ''z''), PyStr (str ''3''))])]
                     (config example_env)\<rparr>)"
proof -
  have f: \<open>files example_env ''app.json'' = Some ''{"A": {"x": "9", "z": "3"}}''\<close>
    by (simp add: example_env_def)
  have u: "unclosed example_env = []"
    by (simp add: example_env_def)
  show ?thesis
    by (simp add: parse_file_def py_open_def py_finalize_def json_load_def f u
          loads_config_example)
qed

text \<open>
  C5. The only value \<open>_parse_file\<close> ever returns is \<open>True\<close>. It never returns \<open>False\<close>: when the
  file cannot be opened the call raises \<open>OSError\<close> instead of returning.
\<close>

theorem parse_file_returns_True:
  "(fst (parse_file F mg p w) = Inr b \<longrightarrow> b = True) \<and>
   fst (parse_file F mg p w) \<noteq> Inr False \<and>
   (files w p = None \<longrightarrow> fst (parse_file F mg p w) = Inl OSError)"
  by (auto simp: parse_file_def py_open_def Let_def split: option.splits sum.splits prod.splits)

theorem parse_file_returns_True_witness:
  "fst (parse_file text_floats merge ''app.json'' example_env) = Inr True \<and>
   fst (parse_file text_floats merge ''missing.json'' example_env) \<noteq> Inr False \<and>
   fst (parse_file text_floats merge ''missing.json'' example_env) = Inl OSError"
proof -
  have returned: "\<exists>b. fst (parse_file text_floats merge ''app.json'' example_env) = Inr b"
    by (auto simp: parse_file_example)
  have missing: "files example_env ''missing.json'' = None"
    by (simp add: example_env_def)
  from returned
    parse_file_returns_True [where F = text_floats and mg = merge and p = "''app.json''"
      and w = example_env]
  have "fst (parse_file text_floats merge ''app.json'' example_env) = Inr True"
    by auto
  moreover from missing
    parse_file_returns_True [where F = text_floats and mg = merge and p = "''missing.json''"
      and w = example_env]
  have "fst (parse_file text_floats merge ''missing.json'' example_env) \<noteq> Inr False \<and>
        fst (parse_file text_floats merge ''missing.json'' example_env) = Inl OSError"
    by blast
  ultimately show ?thesis by blast
qed




subsection \<open>The command line hook\<close>

text \<open>
  C6. With \<open>--json\<close> among the arguments, the hook hands the application to the framework's
  set-up with \<open>json\<close> as the selected output handler, whatever was selected before; and when the
  set-up leaves the selection alone, \<open>json\<close> is the selection after the hook.
\<close>

theorem set_output_handler_selects_json:
  "''--json'' \<in> set (argv a) \<Longrightarrow>
   set_output_handler su a = su (a\<lparr>output_handler := ''json''\<rparr>) \<and>
   ((\<forall>x. output_handler (snd (su x)) = output_handler x) \<longrightarrow>
      output_handler (snd (set_output_handler su a)) = ''json'')"
  by (simp add: set_output_handler_def)

theorem set_output_handler_selects_json_witness:
  "''--json'' \<in> set (argv \<lparr>argv = [''list'', ''--json''], output_handler = ''mustache''\<rparr>) \<and>
   output_handler (snd (set_output_handler (\<lambda>x. (Inr (), x))
      \<lparr>argv = [''list'', ''--json''], output_handler = ''mustache''\<rparr>)) = ''json''"
proof -
  have given: "''--json'' \<in> set (argv \<lparr>argv = [''list'', ''--json''], output_handler = ''mustache''\<rparr>)"
    by simp
  from set_output_handler_selects_json [OF given, where su = "\<lambda>x. (Inr (), x)"] given
  show ?thesis by simp
qed

subsection \<open>Every value the decoder returns is a well-formed Python value\<close>

lemma py_wf_items_iff: "py_wf_items kvs \<longleftrightarrow> (\<forall>v \<in> snd ` set kvs. py_wf v)"
  by (induction kvs) auto

lemma set_update_subset: "set (AList.update k v al) \<subseteq> insert (k, v) (set al)"
  by (induction al) auto

lemma py_dict_acc:
  "distinct (map fst d) \<Longrightarrow>
   distinct (map fst (foldl (\<lambda>d (k, v). AList.update (PyStr k) v d) d pairs)) \<and>
   snd ` set (foldl (\<lambda>d (k, v). AList.update (PyStr k) v d) d pairs)
     \<subseteq> snd ` set d \<union> snd ` set pairs"
proof (induction pairs arbitrary: d)
  case Nil
  then show ?case by simp
next
  case (Cons p pairs)
  obtain k v where p: "p = (k, v)" by (cases p)
  have d': "distinct (map fst (AList.update (PyStr k) v d))"
    using Cons.prems by (rule distinct_update)
  have sub: "snd ` set (AList.update (PyStr k) v d) \<subseteq> insert v (snd ` set d)"
    using set_update_subset [of "PyStr k" v d] by force
  from Cons.IH [OF d']
  have dist: "distinct (map fst (foldl (\<lambda>d (k, v). AList.update (PyStr k) v d)
                 (AList.update (PyStr k) v d) pairs))"
    and vals: "snd ` set (foldl (\<lambda>d (k, v). AList.update (PyStr k) v d)
                 (AList.update (PyStr k) v d) pairs)
               \<subseteq> snd ` set (AList.update (PyStr k) v d) \<union> snd ` set pairs"
    by blast+
  from vals sub
  have "snd ` set (foldl (\<lambda>d (k, v). AList.update (PyStr k) v d)
                 (AList.update (PyStr k) v d) pairs)
        \<subseteq> snd ` set d \<union> insert v (snd ` set pairs)"
    by blast
  with dist show ?case
    by (simp add: p)
qed

lemma py_wf_py_dict:
  assumes "\<forall>v \<in> snd ` set pairs. py_wf v"
  shows "py_wf (PyDict (py_dict pairs))"
proof -
  from py_dict_acc [of "[]" pairs]
  have dist: "distinct (map fst (py_dict pairs))"
    and vals: "snd ` set (py_dict pairs) \<subseteq> snd ` set pairs"
    unfolding py_dict_def by auto
  from vals assms have "\<forall>v \<in> snd ` set (py_dict pairs). py_wf v"
    by blast
  with dist show ?thesis
    by (simp add: py_wf_items_iff)
qed

lemma scan_atom_wf: "scan_atom F s = Inr (v, r) \<Longrightarrow> py_wf v"
  unfolding scan_atom_def
  by (auto split: if_splits option.splits)

lemma scan_wf:
  fixes F :: "'f float_ops"
  shows "scan_once F n s = Inr (v, r) \<Longrightarrow> py_wf v"
    and "array_loop F n s = Inr (vs, r) \<Longrightarrow> py_wf_list vs"
    and "object_loop F n s = Inr (ps, r) \<Longrightarrow> \<forall>v \<in> snd ` set ps. py_wf v"
proof (induction F n s and F n s and F n s arbitrary: v r and vs r and ps r
       rule: scan_once_array_loop_object_loop.induct)
  case (1 F s)
  then show ?case by simp
next
  case (2 F n)
  then show ?case by simp
next
  case (3 F n c cs)
  show ?case
  proof (cases "c = dq")
    case True
    with 3(3) show ?thesis
      by (auto split: sum.splits)
  next
    case ndq: False
    show ?thesis
    proof (cases "c = CHR ''{''")
      case True
      with ndq 3(3) 3(1) show ?thesis
        by (auto split: sum.splits list.splits if_splits intro!: py_wf_py_dict)
    next
      case nb: False
      show ?thesis
      proof (cases "c = CHR ''[''")
        case True
        with ndq nb 3(3) 3(2) show ?thesis
          by (auto split: sum.splits list.splits if_splits)
      next
        case False
        with ndq nb 3(3) show ?thesis
          by (auto dest: scan_atom_wf)
      qed
    qed
  qed
next
  case (4 F s)
  then show ?case by simp
next
  case (5 F n s)
  from 5(3) obtain v0 r0 where a: "scan_once F n s = Inr (v0, r0)"
    by (auto split: sum.splits)
  from 5(1) [OF a] have w0: "py_wf v0" .
  from 5(3) a obtain d r1 where b: "skip_ws r0 = d # r1"
    by (auto split: list.splits)
  show ?case
  proof (cases "d = CHR '']''")
    case True
    with 5(3) a b w0 show ?thesis by auto
  next
    case False
    with 5(3) a b obtain vs' where c: "d = CHR '',''" "array_loop F n (skip_ws r1) = Inr (vs', r)"
      and vs: "vs = v0 # vs'"
      by (auto split: if_splits sum.splits)
    from 5(2) [OF a refl b False c(1) c(2)] w0 vs show ?thesis by simp
  qed
next
  case (6 F s)
  then show ?case by simp
next
  case (7 F n s)
  from 7(3) obtain key r0 where a: "scanstring s = Inr (key, r0)"
    by (auto split: sum.splits)
  from 7(3) a obtain c r1 where b: "skip_ws r0 = c # r1"
    by (auto split: list.splits)
  from 7(3) a b have cc: "\<not> c \<noteq> CHR '':''"
    by (auto split: if_splits)
  from 7(3) a b cc obtain v0 r2 where d: "scan_once F n (skip_ws r1) = Inr (v0, r2)"
    by (auto split: sum.splits)
  from 7(1) [OF a refl b cc d] have w0: "py_wf v0" .
  from 7(3) a b cc d obtain d' r3 where e: "skip_ws r2 = d' # r3"
    by (auto split: list.splits)
  show ?case
  proof (cases "d' = CHR ''}''")
    case True
    with 7(3) a b cc d e w0 show ?thesis by auto
  next
    case False
    with 7(3) a b cc d e have f: "d' = CHR '',''"
      by (auto split: if_splits)
    from 7(3) a b cc d e False f obtain q r4 where g: "skip_ws r3 = q # r4"
      by (auto split: list.splits)
    from 7(3) a b cc d e False f g have h: "q = dq"
      by (auto split: if_splits)
    from 7(3) a b cc d e False f g h obtain ps' where i: "object_loop F n r4 = Inr (ps', r)"
      and ps: "ps = (key, v0) # ps'"
      by (auto split: sum.splits)
    from 7(2) [OF a refl b cc d refl e False f g h i] w0 ps show ?thesis by simp
  qed
qed

lemma json_loads_wf: "json_loads F s = Inr v \<Longrightarrow> py_wf v"
  by (auto simp: json_loads_def split: sum.splits prod.splits if_splits dest: scan_wf(1))

subsection \<open>Merging a parsed file into the store\<close>

lemma add_section_get: "cfg_get (add_section sec st) s k = cfg_get st s k"
  by (auto simp: cfg_get_def add_section_def split: option.splits)

lemma cfg_set_get:
  "cfg_get (cfg_set sec key v st) s k =
     (if s = sec \<and> k = key then Some v else cfg_get st s k)"
  by (auto simp: cfg_get_def cfg_set_def split: option.splits)

lemma merge_keys_skip: "\<forall>key. k \<noteq> PyStr key \<Longrightarrow> merge_keys sec ((k, v) # kvs) st = merge_keys sec kvs st"
  by (cases k) simp_all

lemma merge_keys_get:
  "distinct (map fst kvs) \<Longrightarrow>
   cfg_get (merge_keys sec kvs st) s k =
     (if s = sec
      then (case map_of kvs (PyStr k) of Some v \<Rightarrow> Some v | None \<Rightarrow> cfg_get st s k)
      else cfg_get st s k)"
proof (induction kvs arbitrary: st)
  case Nil
  then show ?case by simp
next
  case (Cons kv kvs)
  obtain k' v' where kv: "kv = (k', v')" by (cases kv)
  from Cons.prems kv have dk: "distinct (map fst kvs)" and nk: "k' \<notin> fst ` set kvs"
    by auto
  show ?case
  proof (cases "\<exists>key. k' = PyStr key")
    case True
    then obtain key where k': "k' = PyStr key" by blast
    from nk k' have "key = k \<Longrightarrow> map_of kvs (PyStr k) = None"
      by (simp add: map_of_eq_None_iff)
    with Cons.IH [OF dk, of "cfg_set sec key v' st"] kv k' show ?thesis
      by (auto simp: cfg_set_get split: option.splits)
  next
    case False
    with Cons.IH [OF dk, of st] kv show ?thesis
      by (auto simp: merge_keys_skip)
  qed
qed

lemma merge_sections_skip:
  "\<not> (\<exists>sec kvs. n = PyStr sec \<and> d = PyDict kvs) \<Longrightarrow>
   merge_sections ((n, d) # secs) st = merge_sections secs st"
  by (cases n; cases d) simp_all

lemma file_value_absent: "PyStr s \<notin> fst ` set secs \<Longrightarrow> file_value secs s k = None"
  by (simp add: file_value_def map_of_eq_None_iff [THEN iffD2])

lemma merge_sections_get:
  "py_wf (PyDict secs) \<Longrightarrow>
   cfg_get (merge_sections secs st) s k =
     (case file_value secs s k of Some v \<Rightarrow> Some v | None \<Rightarrow> cfg_get st s k)"
proof (induction secs arbitrary: st)
  case Nil
  then show ?case by (simp add: file_value_def)
next
  case (Cons nd secs)
  obtain n d where nd: "nd = (n, d)" by (cases nd)
  from Cons.prems nd have wf: "py_wf (PyDict secs)" and nn: "n \<notin> fst ` set secs"
    and wd: "py_wf d"
    by auto
  note IH = Cons.IH [OF wf]
  show ?case
  proof (cases "\<exists>sec kvs. n = PyStr sec \<and> d = PyDict kvs")
    case True
    then obtain sec kvs where n: "n = PyStr sec" and d: "d = PyDict kvs" by blast
    from wd d have dk: "distinct (map fst kvs)" by simp
    have here: "file_value (nd # secs) s k =
                  (if s = sec then map_of kvs (PyStr k) else file_value secs s k)"
      by (simp add: file_value_def nd n d)
    from nn n have absent: "s = sec \<Longrightarrow> file_value secs s k = None"
      by (simp add: file_value_absent)
    show ?thesis
      using IH [of "merge_keys sec kvs (add_section sec st)"] here absent
      by (auto simp: nd n d merge_keys_get [OF dk] add_section_get split: option.splits)
  next
    case False
    have here: "file_value (nd # secs) s k =
                  (if n = PyStr s then None else file_value secs s k)"
      using False by (auto simp: file_value_def nd split: pyval.splits)
    from nn have absent: "n = PyStr s \<Longrightarrow> file_value secs s k = None"
      by (simp add: file_value_absent)
    show ?thesis
      using IH [of st] here absent merge_sections_skip [OF False]
      by (auto simp: nd split: option.splits)
  qed
qed

lemma cfg_set_dom: "dom st \<subseteq> dom (cfg_set sec key v st)"
  by (auto simp: cfg_set_def)

lemma merge_keys_dom: "dom st \<subseteq> dom (merge_keys sec kvs st)"
proof (induction kvs arbitrary: st)
  case Nil
  then show ?case by simp
next
  case (Cons kv kvs)
  obtain k v where kv: "kv = (k, v)" by (cases kv)
  show ?case
  proof (cases "\<exists>key. k = PyStr key")
    case True
    then obtain key where "k = PyStr key" by blast
    with kv Cons.IH [of "cfg_set sec key v st"] cfg_set_dom [of st sec key v] show ?thesis
      by auto
  next
    case False
    with kv Cons.IH [of st] show ?thesis
      by (simp add: merge_keys_skip)
  qed
qed

lemma add_section_dom: "dom st \<subseteq> dom (add_section sec st)"
  by (auto simp: add_section_def split: option.splits)

lemma merge_sections_dom: "dom st \<subseteq> dom (merge_sections secs st)"
proof (induction secs arbitrary: st)
  case Nil
  then show ?case by simp
next
  case (Cons nd secs)
  obtain n d where nd: "nd = (n, d)" by (cases nd)
  show ?case
  proof (cases "\<exists>sec kvs. n = PyStr sec \<and> d = PyDict kvs")
    case True
    then obtain sec kvs where "n = PyStr sec" "d = PyDict kvs" by blast
    with nd Cons.IH [of "merge_keys sec kvs (add_section sec st)"]
      merge_keys_dom [of "add_section sec st" sec kvs] add_section_dom [of st sec]
    show ?thesis by auto
  next
    case False
    with nd Cons.IH [of st] show ?thesis
      by (simp add: merge_sections_skip)
  qed
qed

text \<open>
  C2. When the file at \<open>file_path\<close> holds a JSON object, \<open>_parse_file\<close> returns \<open>True\<close> and the
  store then gives, for every section and key, the value of the file where the file has one
  and the value it gave before where the file has none; no section is removed. On the spec's
  example (witness): \<open>A = {x: 1, y: 2}\<close> and the file \<open>{"A": {"x": "9", "z": "3"}}\<close> give
  \<open>A = {x: 9, y: 2, z: 3}\<close>.
\<close>

theorem parse_file_merges:
  assumes "files w p = Some text" and "json_loads F text = Inr (PyDict secs)"
  shows "fst (parse_file F merge p w) = Inr True \<and>
         cfg_get (config (snd (parse_file F merge p w))) sec key =
           (case file_value secs sec key of
              Some v \<Rightarrow> Some v
            | None \<Rightarrow> cfg_get (config w) sec key) \<and>
         dom (config w) \<subseteq> dom (config (snd (parse_file F merge p w)))"
proof -
  from assms(2) have wf: "py_wf (PyDict secs)"
    by (rule json_loads_wf)
  from assms have run: "parse_file F merge p w =
      (Inr True, w\<lparr>config := merge_sections secs (config w)\<rparr>)"
    by (simp add: parse_file_def py_open_def py_finalize_def json_load_def)
  show ?thesis
    by (simp add: run merge_sections_get [OF wf] merge_sections_dom)
qed

theorem parse_file_merges_witness:
  "fst (parse_file text_floats merge ''app.json'' example_env) = Inr True \<and>
   cfg_get (config (snd (parse_file text_floats merge ''app.json'' example_env)))
     (str ''A'') (str ''x'') = Some (PyStr (str ''9'')) \<and>
   cfg_get (config (snd (parse_file text_floats merge ''app.json'' example_env)))
     (str ''A'') (str ''y'') = Some (PyStr (str ''2'')) \<and>
   cfg_get (config (snd (parse_file text_floats merge ''app.json'' example_env)))
     (str ''A'') (str ''z'') = Some (PyStr (str ''3'')) \<and>
   config (snd (parse_file text_floats merge ''app.json'' example_env)) =
     [str ''A'' \<mapsto> [str ''x'' \<mapsto> PyStr (str ''9''), str ''y'' \<mapsto> PyStr (str ''2''),
                    str ''z'' \<mapsto> PyStr (str ''3'')]]"
proof -
  have f: \<open>files example_env ''app.json'' = Some ''{"A": {"x": "9", "z": "3"}}''\<close>
    by (simp add: example_env_def)
  note m = parse_file_merges [OF f loads_config_example]
  have before: "config example_env =
      [str ''A'' \<mapsto> [str ''x'' \<mapsto> PyStr (str ''1''), str ''y'' \<mapsto> PyStr (str ''2'')]]"
    by (simp add: example_env_def)
  have x: "cfg_get (config (snd (parse_file text_floats merge ''app.json'' example_env)))
     (str ''A'') (str ''x'') = Some (PyStr (str ''9''))"
    using m [of "str ''A''" "str ''x''"] by (simp add: file_value_def str_def)
  have y: "cfg_get (config (snd (parse_file text_floats merge ''app.json'' example_env)))
     (str ''A'') (str ''y'') = Some (PyStr (str ''2''))"
    using m [of "str ''A''" "str ''y''"] by (simp add: file_value_def str_def before cfg_get_def)
  have z: "cfg_get (config (snd (parse_file text_floats merge ''app.json'' example_env)))
     (str ''A'') (str ''z'') = Some (PyStr (str ''3''))"
    using m [of "str ''A''" "str ''z''"] by (simp add: file_value_def str_def)
  have whole: "config (snd (parse_file text_floats merge ''app.json'' example_env)) =
     [str ''A'' \<mapsto> [str ''x'' \<mapsto> PyStr (str ''9''), str ''y'' \<mapsto> PyStr (str ''2''),
                    str ''z'' \<mapsto> PyStr (str ''3'')]]"
    by (simp add: parse_file_example before add_section_def cfg_set_def str_def)
       (auto simp: fun_eq_iff)
  from m [of "str ''A''" "str ''x''"] x y z whole show ?thesis
    by blast
qed

subsection \<open>What the encoder accepts\<close>

lemma key_str_ok:
  "(key_ok k \<longrightarrow> (\<exists>ks. key_str F k = Inr ks)) \<and> (\<not> key_ok k \<longrightarrow> key_str F k = Inl TypeError)"
  by (cases k) simp_all

lemma dumps_encodable:
  fixes F :: "'f float_ops"
  shows "(encodable v \<longrightarrow> (\<exists>s. json_dumps F v = Inr s))
           \<and> (\<not> encodable v \<longrightarrow> json_dumps F v = Inl TypeError)"
    and "(encodable_list xs \<longrightarrow> (\<exists>s. dumps_elems F xs = Inr s))
           \<and> (\<not> encodable_list xs \<longrightarrow> dumps_elems F xs = Inl TypeError)"
    and "(encodable_items kvs \<longrightarrow> (\<exists>s. dumps_items F kvs = Inr s))
           \<and> (\<not> encodable_items kvs \<longrightarrow> dumps_items F kvs = Inl TypeError)"
proof (induction F v and F xs and F kvs rule: json_dumps_dumps_elems_dumps_items.induct)
  case (11 F k v kvs)
  show ?case
  proof (cases "key_ok k")
    case False
    with key_str_ok [of k F] show ?thesis by simp
  next
    case True
    with key_str_ok [of k F] obtain ks where ks: "key_str F k = Inr ks" by blast
    note v = "11.IH"(1) [OF ks]
    show ?thesis
    proof (cases "encodable v")
      case False
      with v True ks show ?thesis by simp
    next
      case ev: True
      with v obtain s where s: "json_dumps F v = Inr s" by blast
      from "11.IH"(2) [OF ks s] True ev ks s show ?thesis
        by (cases "encodable_items kvs") auto
    qed
  qed
next
  case (16 F k v kvs)
  show ?case
  proof (cases "key_ok k")
    case False
    with key_str_ok [of k F] show ?thesis by simp
  next
    case True
    with key_str_ok [of k F] obtain ks where ks: "key_str F k = Inr ks" by blast
    note v = "16.IH"(1) [OF ks]
    show ?thesis
    proof (cases "encodable v")
      case False
      with v True ks show ?thesis by simp
    next
      case ev: True
      with v obtain s where s: "json_dumps F v = Inr s" by blast
      from "16.IH"(2) [OF ks s] True ev ks s show ?thesis
        by (cases "encodable_items kvs") auto
    qed
  qed
qed (auto split: sum.splits)

text \<open>
  C4, amended. For data that is a finite tree of values, \<open>render\<close> raises \<open>TypeError\<close>, as
  \<open>json.dumps\<close> raised it, and returns no text, exactly when the data holds something
  \<open>json.dumps\<close> has no encoding for: anywhere in it, as a value or as a key, an instance of
  a class that is none of \<open>NoneType\<close>, \<open>bool\<close>, \<open>int\<close>, \<open>float\<close>, \<open>str\<close>, \<open>list\<close>, \<open>tuple\<close>,
  \<open>dict\<close> and derives from none of them, or a tuple as a dictionary key. All other data is
  rendered, whether it is in the JSON value model or not.
\<close>

theorem render_raises_iff_not_encodable:
  "(\<not> encodable d \<longrightarrow> fst (render F m d t p) = Inl TypeError) \<and>
   (encodable d \<longrightarrow> (\<exists>s. fst (render F m d t p) = Inr s))"
  using dumps_encodable(1) [of d F]
  by (simp add: render_def Let_def)

theorem render_raises_iff_not_encodable_witness:
  "\<not> encodable (PyDict [(PyStr (str ''conn''), PyObject ''socket'')] :: string pyval) \<and>
   fst (render text_floats ''cement.ext.ext_json''
          (PyDict [(PyStr (str ''conn''), PyObject ''socket'')]) ()
          \<lparr>sys_stdout = 7, sys_stderr = 8, saved_stdout = 1, saved_stderr = 2, debug_log = []\<rparr>)
     = Inl TypeError \<and>
   encodable (PyDict [(PyInt 1, PyTuple [PyFloat NaN])] :: string pyval) \<and>
   (\<exists>s. fst (render text_floats ''cement.ext.ext_json''
          (PyDict [(PyInt 1, PyTuple [PyFloat NaN])]) ()
          \<lparr>sys_stdout = 7, sys_stderr = 8, saved_stdout = 1, saved_stderr = 2, debug_log = []\<rparr>)
     = Inr s)"
proof -
  have no: "\<not> encodable (PyDict [(PyStr (str ''conn''), PyObject ''socket'')] :: string pyval)"
    by simp
  have yes: "encodable (PyDict [(PyInt 1, PyTuple [PyFloat NaN])] :: string pyval)"
    by simp
  have raised: "fst (render text_floats ''cement.ext.ext_json''
          (PyDict [(PyStr (str ''conn''), PyObject ''socket'')]) ()
          \<lparr>sys_stdout = 7, sys_stderr = 8, saved_stdout = 1, saved_stderr = 2, debug_log = []\<rparr>)
     = Inl TypeError"
    by (rule render_raises_iff_not_encodable [THEN conjunct1, rule_format, OF no])
  have written: "\<exists>s. fst (render text_floats ''cement.ext.ext_json''
          (PyDict [(PyInt 1, PyTuple [PyFloat NaN])]) ()
          \<lparr>sys_stdout = 7, sys_stderr = 8, saved_stdout = 1, saved_stderr = 2, debug_log = []\<rparr>)
     = Inr s"
    by (rule render_raises_iff_not_encodable [THEN conjunct2, rule_format, OF yes])
  from no raised yes written show ?thesis by blast
qed

text \<open>
  C4, as the claim states it, fails: a dictionary holding the float \<open>nan\<close> is outside the JSON
  value model, and \<open>render\<close> returns text for it, with \<open>NaN\<close> written in place of a number.
\<close>

theorem render_writes_NaN:
  \<open>\<not> json_representable text_floats (PyDict [(PyStr (str ''ratio''), PyFloat NaN)]) \<and>
   fst (render text_floats ''cement.ext.ext_json''
          (PyDict [(PyStr (str ''ratio''), PyFloat NaN)]) ()
          \<lparr>sys_stdout = 7, sys_stderr = 8, saved_stdout = 1, saved_stderr = 2, debug_log = []\<rparr>)
     = Inr ''{"ratio": NaN}''\<close>
  by (simp add: render_def Let_def str_def encode_basestring_ascii_def escape_char_def dq_def
        char_of_eq_iff)

subsection \<open>The decoder reads back what the encoder writes\<close>

lemma hex_val_hex_digit: "d < 16 \<Longrightarrow> hex_val (hex_digit d) = Some d"
  by (auto simp: hex_val_def hex_digit_def Let_def)

lemma hex4_value:
  fixes n :: nat
  assumes "n < 65536"
  shows "((n div 4096 mod 16 * 16 + n div 256 mod 16) * 16 + n div 16 mod 16) * 16 + n mod 16 = n"
proof -
  have d256: "n div 256 = n div 16 div 16"
    by (simp add: div_mult2_eq)
  have d4096: "n div 4096 = n div 16 div 16 div 16"
    by (simp add: div_mult2_eq)
  from assms have "n div 4096 < 16"
    by simp
  then have top: "n div 16 div 16 div 16 mod 16 = n div 16 div 16 div 16"
    by (simp add: d4096)
  have s3: "n div 16 div 16 div 16 * 16 + n div 16 div 16 mod 16 = n div 16 div 16"
    by simp
  have s2: "n div 16 div 16 * 16 + n div 16 mod 16 = n div 16"
    by simp
  have s1: "n div 16 * 16 + n mod 16 = n"
    by simp
  show ?thesis
    by (simp only: d256 d4096 top s3 s2 s1)
qed

lemma decode_hex4:
  assumes "n < 65536"
  shows "decode_uXXXX (hex4 n) = Some n"
proof -
  have hv: "hex_val (hex_digit (n div 4096 mod 16)) = Some (n div 4096 mod 16)"
    "hex_val (hex_digit (n div 256 mod 16)) = Some (n div 256 mod 16)"
    "hex_val (hex_digit (n div 16 mod 16)) = Some (n div 16 mod 16)"
    "hex_val (hex_digit (n mod 16)) = Some (n mod 16)"
    by (simp_all add: hex_val_hex_digit)
  show ?thesis
    unfolding decode_uXXXX_def hex4_def
    by (simp only: list.case hv option.case hex4_value [OF assms])
qed

lemma take_hex4 [simp]: "take 4 (hex4 n @ r) = hex4 n"
  by (simp add: hex4_def)

lemma drop_hex4: "drop 4 (hex4 n @ r) = r"
  by (simp add: hex4_def)

lemma mask10: "(0x3FF::nat) = mask 10"
  by (simp add: mask_eq_exp_minus_1)

lemma or_push_bit:
  fixes a b :: nat
  assumes "b < 2 ^ n"
  shows "push_bit n a OR b = push_bit n a + b"
proof -
  from assms have b: "take_bit n b = b"
    by (rule take_bit_nat_eq_self)
  have "push_bit n a AND take_bit n b = 0"
    by (auto simp: bit_eq_iff bit_simps)
  with b have "push_bit n a AND b = 0" by simp
  then show ?thesis
    by (simp add: disjunctive_add_eq_or)
qed

lemma and_3FF:
  fixes n :: nat
  shows "n AND 0x3FF = n mod 1024"
proof -
  have m: "mask 10 = (0x3FF::nat)"
    by (simp add: mask_eq_exp_minus_1)
  have "n AND mask 10 = take_bit 10 n"
    by (simp only: take_bit_eq_mask)
  also have "\<dots> = n mod 2 ^ 10"
    by (simp only: take_bit_eq_mod)
  finally have "n AND mask 10 = n mod 2 ^ 10" .
  from this [unfolded m] show ?thesis by simp
qed

lemma surrogate_hi:
  fixes n :: nat
  assumes "n < 0x100000"
  shows "0xD800 OR (drop_bit 10 n AND 0x3FF) = 0xD800 + n div 1024"
proof -
  from assms have small: "n div 1024 < 2 ^ 10" by simp
  have d: "drop_bit 10 n = n div 1024"
    by (simp add: drop_bit_eq_div)
  from small have a: "n div 1024 AND 0x3FF = n div 1024"
    by (simp add: and_3FF)
  have p: "push_bit 10 (54::nat) = 0xD800"
    by (simp add: push_bit_eq_mult)
  from or_push_bit [OF small, of 54, unfolded p] show ?thesis
    by (simp only: d a)
qed

lemma surrogate_lo:
  fixes n :: nat
  shows "0xDC00 OR (n AND 0x3FF) = 0xDC00 + n mod 1024"
proof -
  have small: "n mod 1024 < 2 ^ 10" by simp
  have p: "push_bit 10 (55::nat) = 0xDC00"
    by (simp add: push_bit_eq_mult)
  from or_push_bit [OF small, of 55, unfolded p] show ?thesis
    by (simp only: and_3FF)
qed

lemma surrogate_join:
  fixes n :: nat
  shows "push_bit 10 (n div 1024) OR (n mod 1024) = n"
proof -
  have small: "n mod 1024 < 2 ^ 10" by simp
  from or_push_bit [OF small, of "n div 1024"] show ?thesis
    by (simp add: push_bit_eq_mult)
qed

lemma length_hex4 [simp]: "length (hex4 n) = 4"
  by (simp add: hex4_def)

lemma scan_escape_u:
  assumes "n < 65536" and "\<not> (0xD800 \<le> n \<and> n \<le> 0xDBFF)"
  shows "scan_escape (CHR ''u'' # hex4 n @ r) = Some (n, 5)"
  using assms by (auto simp: scan_escape_def decode_hex4)

lemma scan_escape_pair:
  assumes "0xD800 \<le> hi" and "hi \<le> 0xDBFF" and "0xDC00 \<le> lo" and "lo \<le> 0xDFFF"
  shows "scan_escape (CHR ''u'' # hex4 hi @ bs # CHR ''u'' # hex4 lo @ r) =
           Some (0x10000 + (push_bit 10 (hi - 0xD800) OR (lo - 0xDC00)), 11)"
proof -
  from assms have "hi < 65536" and "lo < 65536" by simp_all
  then have "decode_uXXXX (hex4 hi) = Some hi" and "decode_uXXXX (hex4 lo) = Some lo"
    by (simp_all add: decode_hex4)
  with assms show ?thesis
    by (simp add: scan_escape_def)
qed

lemma bs_neq_dq [simp]: "bs \<noteq> dq"
  by (simp add: bs_def dq_def)

lemma scanstring_bs:
  "scanstring (bs # cs) =
     (case scan_escape cs of
        None \<Rightarrow> Inl JSONDecodeError
      | Some (x, k) \<Rightarrow> cons_char x (scanstring (drop k cs)))"
  by simp

lemma scanstring_escape_char:
  assumes "unicode_scalar c"
  shows "scanstring (escape_char c @ r) = cons_char c (scanstring r)"
proof -
  consider (short) "c \<in> {0x5C, 0x22, 0x08, 0x0C, 0x0A, 0x0D, 0x09}"
    | (plain) "c \<notin> {0x5C, 0x22, 0x08, 0x0C, 0x0A, 0x0D, 0x09}" "0x20 \<le> c" "c \<le> 0x7E"
    | (bmp) "c \<notin> {0x5C, 0x22, 0x08, 0x0C, 0x0A, 0x0D, 0x09}" "c < 0x20 \<or> 0x7E < c" "c < 0x10000"
    | (astral) "0x10000 \<le> c"
    by fastforce
  then show ?thesis
  proof cases
    case short
    then show ?thesis
      by (auto simp: escape_char_def scanstring_bs scan_escape_def backslash_def bs_def dq_def)
  next
    case plain
    then have small: "c < 2 ^ 8" by simp
    have tb: "take_bit 8 c = c"
      using small by (rule take_bit_nat_eq_self)
    from plain have esc: "escape_char c = [char_of c]"
      by (auto simp: escape_char_def)
    from plain small have "of_char (char_of c) = c"
      by simp
    with plain tb show ?thesis
      by (simp add: esc dq_def bs_def char_of_eq_iff)
  next
    case bmp
    then have esc: "escape_char c = bs # CHR ''u'' # hex4 c"
      by (auto simp: escape_char_def u_escape_def)
    from assms bmp have "\<not> (0xD800 \<le> c \<and> c \<le> 0xDBFF)"
      by (auto simp: unicode_scalar_def)
    from scan_escape_u [OF bmp(3) this, of r] show ?thesis
      by (simp add: esc)
  next
    case astral
    with assms have lt: "c - 0x10000 < 0x100000"
      by (auto simp: unicode_scalar_def)
    define n where "n = c - 0x10000"
    from lt have n: "n < 0x100000" by (simp add: n_def)
    from astral have c: "c = 0x10000 + n" by (simp add: n_def)
    from astral have esc: "escape_char c =
        bs # CHR ''u'' # hex4 (0xD800 + n div 1024) @ bs # CHR ''u'' # hex4 (0xDC00 + n mod 1024)"
      by (simp add: escape_char_def u_escape_def surrogate_hi [OF lt] surrogate_lo n_def)
    from n have hi: "0xD800 \<le> 0xD800 + n div 1024" "0xD800 + n div 1024 \<le> 0xDBFF"
      by simp_all
    have lo: "0xDC00 \<le> 0xDC00 + n mod 1024" "0xDC00 + n mod 1024 \<le> 0xDFFF"
      by simp_all
    have val: "0x10000 + (push_bit 10 (0xD800 + n div 1024 - 0xD800)
                 OR (0xDC00 + n mod 1024 - 0xDC00)) = c"
      by (simp add: surrogate_join c)
    from scan_escape_pair [OF hi lo, of r]
    have "scan_escape (CHR ''u'' # hex4 (0xD800 + n div 1024) @ bs # CHR ''u''
            # hex4 (0xDC00 + n mod 1024) @ r) = Some (c, 11)"
      by (simp only: val)
    then show ?thesis
      by (simp add: esc)
  qed
qed

lemma scanstring_body:
  "list_all unicode_scalar s \<Longrightarrow>
   scanstring (concat (map escape_char s) @ dq # r) = Inr (s, r)"
  by (induction s) (simp_all add: scanstring_escape_char cons_char_def)

lemma scan_encoded_string:
  "list_all unicode_scalar s \<Longrightarrow>
   scanstring (tl (encode_basestring_ascii s) @ r) = Inr (s, r)"
  by (simp add: encode_basestring_ascii_def scanstring_body)

lemma at_delimiter_digits:
  assumes "at_delimiter r"
  shows "takeWhile is_digit (xs @ r) = takeWhile is_digit xs"
    and "dropWhile is_digit (xs @ r) = dropWhile is_digit xs @ r"
proof -
  from assms have r: "takeWhile is_digit r = []" "dropWhile is_digit r = r"
    by (auto simp: at_delimiter_def is_digit_def split: list.splits)
  show "takeWhile is_digit (xs @ r) = takeWhile is_digit xs"
    by (induction xs) (simp_all add: r)
  show "dropWhile is_digit (xs @ r) = dropWhile is_digit xs @ r"
    by (induction xs) (simp_all add: r)
qed

lemma match_sign_append:
  "at_delimiter r \<Longrightarrow> match_sign (xs @ r) = (fst (match_sign xs), snd (match_sign xs) @ r)"
  by (cases xs) (auto simp: match_sign_def at_delimiter_def split: list.splits)

lemma match_frac_append:
  "at_delimiter r \<Longrightarrow> match_frac (xs @ r) = (fst (match_frac xs), snd (match_frac xs) @ r)"
  by (cases xs) (auto simp: match_frac_def at_delimiter_digits, auto simp: at_delimiter_def split: list.splits)

lemma match_exp_append:
  assumes "at_delimiter r"
  shows "match_exp (xs @ r) = (fst (match_exp xs), snd (match_exp xs) @ r)"
proof (cases xs)
  case Nil
  with assms show ?thesis
    by (auto simp: match_exp_def at_delimiter_def split: list.splits)
next
  case (Cons c cs)
  then show ?thesis
    by (simp add: match_exp_def match_sign_append [OF assms] at_delimiter_digits [OF assms])
qed

lemma match_integer_append:
  assumes "at_delimiter r"
  shows "match_integer (xs @ r) = map_option (\<lambda>(ds, t). (ds, t @ r)) (match_integer xs)"
proof (cases xs)
  case Nil
  with assms show ?thesis
    by (auto simp: match_integer_def at_delimiter_def is_digit_def split: list.splits)
next
  case (Cons c cs)
  then show ?thesis
    by (auto simp: match_integer_def at_delimiter_digits [OF assms])
qed

lemma match_number_append:
  assumes "at_delimiter r"
  shows "match_number (xs @ r) =
           map_option (\<lambda>(i, f, e, t). (i, f, e, t @ r)) (match_number xs)"
proof (cases xs)
  case Nil
  with assms show ?thesis
    by (auto simp: match_number_def match_integer_def at_delimiter_def is_digit_def
             split: list.splits)
next
  case (Cons c cs)
  show ?thesis
  proof (cases "c = CHR ''-''")
    case True
    with Cons show ?thesis
      by (simp add: match_number_def match_integer_append [OF assms]
            match_frac_append [OF assms] match_exp_append [OF assms] case_prod_beta
          split: option.splits)
  next
    case False
    with Cons show ?thesis
      using match_integer_append [OF assms, of "c # cs"]
      by (simp add: match_number_def match_frac_append [OF assms] match_exp_append [OF assms]
            case_prod_beta
          split: option.splits)
  qed
qed

lemma of_char_digit: "d < 10 \<Longrightarrow> of_char (char_of (48 + d)) = 48 + (d::nat)"
  by simp

lemma is_digit_char_of: "d < 10 \<Longrightarrow> is_digit (char_of (48 + (d::nat)))"
  by (simp add: is_digit_def)

lemma nat_repr_digits: "\<forall>c \<in> set (nat_repr n). is_digit c"
proof (induction n rule: nat_repr.induct)
  case (1 n)
  show ?case
  proof (cases "n < 10")
    case True
    then show ?thesis
      by (subst nat_repr.simps) (simp add: is_digit_char_of)
  next
    case False
    with 1 show ?thesis
      by (subst nat_repr.simps) (simp add: is_digit_char_of)
  qed
qed

lemma nat_repr_not_Nil [simp]: "nat_repr n \<noteq> []"
  by (subst nat_repr.simps) simp

lemma digits_val_snoc: "digits_val (xs @ [c]) = 10 * digits_val xs + (of_char c - 48)"
  by (simp add: digits_val_def)

lemma digits_val_nat_repr: "digits_val (nat_repr n) = n"
proof (induction n rule: nat_repr.induct)
  case (1 n)
  show ?case
  proof (cases "n < 10")
    case True
    then show ?thesis
      by (subst nat_repr.simps) (simp add: digits_val_def)
  next
    case False
    with 1 show ?thesis
      by (subst nat_repr.simps) (simp add: digits_val_snoc)
  qed
qed

lemma nat_repr_0: "nat_repr 0 = [CHR ''0'']"
  by (subst nat_repr.simps) (simp add: char_of_eq_iff)

lemma nat_repr_hd: "0 < n \<Longrightarrow> hd (nat_repr n) \<noteq> CHR ''0''"
proof (induction n rule: nat_repr.induct)
  case (1 n)
  show ?case
  proof (cases "n < 10")
    case True
    with "1.prems" show ?thesis
      by (subst nat_repr.simps) (simp add: char_of_eq_iff take_bit_nat_eq_self)
  next
    case False
    then have "0 < n div 10" by simp
    with 1 False show ?thesis
      by (subst nat_repr.simps) simp
  qed
qed

lemma takeWhile_all: "\<forall>c \<in> set xs. P c \<Longrightarrow> takeWhile P xs = xs"
  by (induction xs) simp_all

lemma dropWhile_all: "\<forall>c \<in> set xs. P c \<Longrightarrow> dropWhile P xs = []"
  by (induction xs) simp_all

lemma match_integer_nat_repr: "match_integer (nat_repr n) = Some (nat_repr n, [])"
proof (cases "n = 0")
  case True
  then show ?thesis
    by (simp add: nat_repr_0 match_integer_def)
next
  case False
  obtain c cs where s: "nat_repr n = c # cs"
    by (cases "nat_repr n") simp_all
  from False nat_repr_hd [of n] s have c0: "c \<noteq> CHR ''0''"
    by simp
  from nat_repr_digits [of n] s have all: "\<forall>x \<in> set (c # cs). is_digit x"
    by simp
  then have "is_digit c" by simp
  with c0 show ?thesis
    unfolding s match_integer_def
    by (simp only: list.case if_False if_True takeWhile_all [OF all] dropWhile_all [OF all])
qed

lemma nat_repr_no_minus: "hd (nat_repr n) \<noteq> CHR ''-''"
proof -
  obtain c cs where s: "nat_repr n = c # cs"
    by (cases "nat_repr n") simp_all
  with nat_repr_digits [of n] have "is_digit c" by simp
  then have "c \<noteq> CHR ''-''"
    by (auto simp: is_digit_def)
  with s show ?thesis by simp
qed

lemma match_number_int_repr: "match_number (int_repr i) = Some (int_repr i, [], [], [])"
proof (cases "i < 0")
  case True
  then show ?thesis
    by (simp add: int_repr_def match_number_def match_integer_nat_repr match_frac_def
          match_exp_def)
next
  case False
  obtain c cs where s: "nat_repr (nat i) = c # cs"
    by (cases "nat_repr (nat i)") simp_all
  with nat_repr_no_minus [of "nat i"] have "c \<noteq> CHR ''-''" by simp
  with False s match_integer_nat_repr [of "nat i"] show ?thesis
    by (simp add: int_repr_def match_number_def match_frac_def match_exp_def)
qed

lemma parse_int_int_repr: "parse_int (int_repr i) = i"
proof (cases "i < 0")
  case True
  then show ?thesis
    by (simp add: int_repr_def parse_int_def digits_val_nat_repr)
next
  case False
  obtain c cs where s: "nat_repr (nat i) = c # cs"
    by (cases "nat_repr (nat i)") simp_all
  with nat_repr_no_minus [of "nat i"] have "c \<noteq> CHR ''-''" by simp
  with False s digits_val_nat_repr [of "nat i"] show ?thesis
    by (simp add: int_repr_def parse_int_def)
qed

lemma match_number_start:
  "match_number s = Some m \<Longrightarrow> \<exists>c cs. s = c # cs \<and> number_start c"
  by (cases s)
     (auto simp: match_number_def match_integer_def number_start_def is_digit_def
           split: if_splits option.splits list.splits)

lemma scan_atom_number:
  assumes "match_number s = Some (i, f, e, r)"
  shows "scan_atom F s =
           (if f \<noteq> [] \<or> e \<noteq> []
            then Inr (PyFloat (float_of_str F (i @ f @ e)), r)
            else Inr (PyInt (parse_int i), r))"
proof -
  from match_number_start [OF assms] obtain c cs where s: "s = c # cs" and c: "number_start c"
    by blast
  from c have "c \<noteq> CHR ''n''" "c \<noteq> CHR ''t''" "c \<noteq> CHR ''f''"
    by (auto simp: number_start_def is_digit_def)
  with s have "take 4 s \<noteq> ''null''" "take 4 s \<noteq> ''true''" "take 5 s \<noteq> ''false''"
    by auto
  with assms show ?thesis
    by (simp add: scan_atom_def)
qed

lemma value_start_not_ws: "value_start c \<Longrightarrow> \<not> is_ws c"
  by (auto simp: value_start_def number_start_def is_digit_def is_ws_def dq_def)

lemma value_start_not_close: "value_start c \<Longrightarrow> c \<noteq> CHR '']'' \<and> c \<noteq> CHR ''}''"
  by (auto simp: value_start_def number_start_def is_digit_def dq_def)

lemma skip_ws_value: "starts_value s \<Longrightarrow> skip_ws (s @ r) = s @ r"
  by (cases s) (auto simp: starts_value_def skip_ws_def dest: value_start_not_ws)

lemma skip_ws_space: "skip_ws (CHR '' '' # s) = skip_ws s"
  by (simp add: skip_ws_def is_ws_def)

lemma skip_ws_not_ws: "\<not> is_ws c \<Longrightarrow> skip_ws (c # s) = c # s"
  by (simp add: skip_ws_def)

lemma not_ws_punct [simp]:
  "\<not> is_ws (CHR '','')" "\<not> is_ws (CHR '']'')" "\<not> is_ws (CHR ''}'')" "\<not> is_ws (CHR '':'')"
  "\<not> is_ws dq"
  by (simp_all add: is_ws_def dq_def)

lemma at_delimiter_simps [simp]:
  "at_delimiter []" "at_delimiter (CHR '','' # r)" "at_delimiter (CHR '']'' # r)"
  "at_delimiter (CHR ''}'' # r)"
  by (simp_all add: at_delimiter_def)

lemma dumps_starts_value:
  assumes "json_representable F v" and "json_dumps F v = Inr t"
  shows "starts_value t"
proof (cases v)
  case (PyInt i)
  from match_number_start [OF match_number_int_repr [of i]] PyInt assms(2) show ?thesis
    by (auto simp: starts_value_def value_start_def)
next
  case (PyFloat x)
  with assms(1) obtain f where x: "x = Finite f" and fl: "float_as_number F f"
    by (cases x) simp_all
  from fl obtain m where "match_number (float_repr F f) = Some m"
    by (auto simp: float_as_number_def split: option.splits)
  from match_number_start [OF this] PyFloat x assms(2) show ?thesis
    by (auto simp: starts_value_def value_start_def)
next
  case (PyList xs)
  with assms(2) show ?thesis
    by (cases xs) (auto simp: starts_value_def value_start_def split: sum.splits)
next
  case (PyDict kvs)
  with assms(2) show ?thesis
    by (cases kvs) (auto simp: starts_value_def value_start_def split: sum.splits)
qed (use assms in \<open>auto simp: starts_value_def value_start_def encode_basestring_ascii_def\<close>)

lemma scan_once_atom:
  "c \<noteq> dq \<Longrightarrow> c \<noteq> CHR ''{'' \<Longrightarrow> c \<noteq> CHR ''['' \<Longrightarrow>
   scan_once F (Suc n) (c # cs) = scan_atom F (c # cs)"
  by simp

lemma number_start_atom:
  "number_start c \<Longrightarrow> c \<noteq> dq \<and> c \<noteq> CHR ''{'' \<and> c \<noteq> CHR ''[''"
  by (auto simp: number_start_def is_digit_def dq_def)

lemma scan_once_number:
  assumes "match_number s = Some (i, f, e, [])" and "at_delimiter r"
  shows "scan_once F (Suc n) (s @ r) =
           (if f \<noteq> [] \<or> e \<noteq> []
            then Inr (PyFloat (float_of_str F (i @ f @ e)), r)
            else Inr (PyInt (parse_int i), r))"
proof -
  from match_number_start [OF assms(1)] obtain c cs where s: "s = c # cs" and c: "number_start c"
    by blast
  from assms have m: "match_number (s @ r) = Some (i, f, e, r)"
    by (simp add: match_number_append)
  from number_start_atom [OF c] have "scan_once F (Suc n) (c # cs @ r) = scan_atom F (c # cs @ r)"
    by (simp add: scan_once_atom)
  with scan_atom_number [OF m, of F] s show ?thesis
    by simp
qed

lemma array_loop_last:
  assumes "scan_once F m (s0 @ CHR '']'' # rest) = Inr (v0, CHR '']'' # rest)"
  shows "array_loop F (Suc m) (s0 @ CHR '']'' # rest) = Inr ([v0], rest)"
  using assms by (simp add: skip_ws_not_ws)

lemma array_loop_more:
  assumes "scan_once F m (s0 @ CHR '','' # CHR '' '' # u) = Inr (v0, CHR '','' # CHR '' '' # u)"
    and "skip_ws u = u"
    and "array_loop F m u = Inr (vs, rest)"
  shows "array_loop F (Suc m) (s0 @ CHR '','' # CHR '' '' # u) = Inr (v0 # vs, rest)"
  using assms by (simp add: skip_ws_not_ws skip_ws_space)

lemma object_loop_last:
  assumes "scanstring (kt @ CHR '':'' # CHR '' '' # s0 @ CHR ''}'' # rest)
             = Inr (k0, CHR '':'' # CHR '' '' # s0 @ CHR ''}'' # rest)"
    and "skip_ws (s0 @ CHR ''}'' # rest) = s0 @ CHR ''}'' # rest"
    and "scan_once F m (s0 @ CHR ''}'' # rest) = Inr (v0, CHR ''}'' # rest)"
  shows "object_loop F (Suc m) (kt @ CHR '':'' # CHR '' '' # s0 @ CHR ''}'' # rest)
           = Inr ([(k0, v0)], rest)"
  using assms by (simp add: skip_ws_not_ws skip_ws_space)

lemma object_loop_more:
  assumes "scanstring (kt @ CHR '':'' # CHR '' '' # s0 @ CHR '','' # CHR '' '' # dq # u)
             = Inr (k0, CHR '':'' # CHR '' '' # s0 @ CHR '','' # CHR '' '' # dq # u)"
    and "skip_ws (s0 @ CHR '','' # CHR '' '' # dq # u) = s0 @ CHR '','' # CHR '' '' # dq # u"
    and "scan_once F m (s0 @ CHR '','' # CHR '' '' # dq # u)
           = Inr (v0, CHR '','' # CHR '' '' # dq # u)"
    and "object_loop F m u = Inr (ps, rest)"
  shows "object_loop F (Suc m) (kt @ CHR '':'' # CHR '' '' # s0 @ CHR '','' # CHR '' '' # dq # u)
           = Inr ((k0, v0) # ps, rest)"
  using assms by (simp add: skip_ws_not_ws skip_ws_space)

lemma update_new: "k \<notin> fst ` set al \<Longrightarrow> AList.update k v al = al @ [(k, v)]"
  by (induction al) auto

lemma representable_items_keys:
  "representable_items F kvs \<Longrightarrow> (k, v) \<in> set kvs \<Longrightarrow> PyStr (key_text k) = k"
  by (induction kvs) (auto simp: key_text_def split: pyval.splits)

lemma py_dict_acc_items:
  "representable_items F kvs \<Longrightarrow> distinct (map fst (acc @ kvs)) \<Longrightarrow>
   foldl (\<lambda>d (k, v). AList.update (PyStr k) v d) acc (map (\<lambda>(k, v). (key_text k, v)) kvs)
     = acc @ kvs"
proof (induction kvs arbitrary: acc)
  case Nil
  then show ?case by simp
next
  case (Cons kv kvs)
  obtain k v where kv: "kv = (k, v)" by (cases kv)
  from Cons.prems(1) kv have key: "PyStr (key_text k) = k"
    by (auto simp: key_text_def split: pyval.splits)
  from Cons.prems(1) kv have items: "representable_items F kvs"
    by simp
  from Cons.prems(2) kv have new: "k \<notin> fst ` set acc"
    by auto
  from Cons.prems(2) kv have dist: "distinct (map fst ((acc @ [(k, v)]) @ kvs))"
    by simp
  from Cons.IH [OF items dist] show ?case
    by (simp add: kv key update_new [OF new])
qed

lemma py_dict_items:
  "representable_items F kvs \<Longrightarrow> distinct (map fst kvs) \<Longrightarrow>
   py_dict (map (\<lambda>(k, v). (key_text k, v)) kvs) = kvs"
  using py_dict_acc_items [of F kvs "[]"] by (simp add: py_dict_def)

lemma dq_not_bracket [simp]:
  "dq \<noteq> CHR ''}''" "dq \<noteq> CHR ''{''" "dq \<noteq> CHR '']''" "dq \<noteq> CHR ''[''"
  "CHR ''}'' \<noteq> dq" "CHR ''{'' \<noteq> dq" "CHR '']'' \<noteq> dq" "CHR ''['' \<noteq> dq"
  by (simp_all add: dq_def)

lemma dumps_scan:
  fixes F :: "'f float_ops"
  shows "json_representable F v \<Longrightarrow> json_dumps F v = Inr t \<Longrightarrow> at_delimiter rest \<Longrightarrow>
         2 * length t < n \<Longrightarrow> scan_once F n (t @ rest) = Inr (v, rest)"
    and "representable_list F xs \<Longrightarrow> dumps_elems F xs = Inr t \<Longrightarrow>
         (\<And>m r'. 2 * length s0 < m \<Longrightarrow> at_delimiter r' \<Longrightarrow>
                  scan_once F m (s0 @ r') = Inr (v0, r')) \<Longrightarrow>
         2 * (length s0 + length t) + 1 < n \<Longrightarrow>
         array_loop F n (s0 @ t @ CHR '']'' # rest) = Inr (v0 # xs, rest)"
    and "representable_items F kvs \<Longrightarrow> dumps_items F kvs = Inr t \<Longrightarrow>
         list_all unicode_scalar k0 \<Longrightarrow> starts_value s0 \<Longrightarrow>
         (\<And>m r'. 2 * length s0 < m \<Longrightarrow> at_delimiter r' \<Longrightarrow>
                  scan_once F m (s0 @ r') = Inr (v0, r')) \<Longrightarrow>
         2 * (length s0 + length t) + 1 < n \<Longrightarrow>
         object_loop F n (concat (map escape_char k0) @ dq # CHR '':'' # CHR '' '' # s0 @ t
                            @ CHR ''}'' # rest)
           = Inr ((k0, v0) # map (\<lambda>(k, v). (key_text k, v)) kvs, rest)"
proof (induction F v and F xs and F kvs
       arbitrary: t rest n and t s0 v0 rest n and t k0 s0 v0 rest n
       rule: json_dumps_dumps_elems_dumps_items.induct)
  case (1 F)
  from "1.prems" obtain m where "n = Suc m" by (cases n) auto
  with "1.prems" show ?case
    by (auto simp: scan_atom_def dq_def)
next
  case (2 F b)
  from "2.prems" obtain m where "n = Suc m" by (cases n) auto
  with "2.prems" show ?case
    by (auto simp: scan_atom_def dq_def)
next
  case (3 F i)
  from "3.prems" obtain m where n: "n = Suc m" by (cases n) auto
  from "3.prems" have t: "t = int_repr i" by simp
  from scan_once_number [OF match_number_int_repr "3.prems"(3), of F m i]
  show ?case
    by (simp add: n t parse_int_int_repr)
next
  case (4 F x)
  from "4.prems" obtain m where n: "n = Suc m" by (cases n) auto
  from "4.prems"(1) obtain f where x: "x = Finite f" and fl: "float_as_number F f"
    by (cases x) simp_all
  from fl obtain i fr e where m: "match_number (float_repr F f) = Some (i, fr, e, [])"
    and fe: "fr \<noteq> [] \<or> e \<noteq> []" and rd: "float_of_str F (i @ fr @ e) = Finite f"
    by (auto simp: float_as_number_def split: option.splits)
  from "4.prems"(2) x have t: "t = float_repr F f" by simp
  from scan_once_number [OF m "4.prems"(3), of F m] fe rd show ?case
    by (auto simp: n t x)
next
  case (5 F s)
  from "5.prems" obtain m where n: "n = Suc m" by (cases n) auto
  from "5.prems" have t: "t = encode_basestring_ascii s" and ok: "list_all unicode_scalar s"
    by simp_all
  from scanstring_body [OF ok, of rest] show ?case
    by (simp add: n t encode_basestring_ascii_def)
next
  case (6 F)
  from "6.prems" obtain m where "n = Suc m" by (cases n) auto
  with "6.prems" show ?case
    by (auto simp: dq_def skip_ws_not_ws)
next
  case (7 F x xs)
  from "7.prems"(2) obtain s t' where s: "json_dumps F x = Inr s"
    and t': "dumps_elems F xs = Inr t'" and t: "t = CHR ''['' # s @ t' @ '']''"
    by (auto split: sum.splits)
  from "7.prems"(1) have rx: "json_representable F x" and rxs: "representable_list F xs"
    by simp_all
  from "7.prems"(4) t obtain m where n: "n = Suc m" and fuel: "2 * (length s + length t') + 1 < m"
    by (cases n) auto
  from dumps_starts_value [OF rx s] obtain c0 cs0 where s0: "s = c0 # cs0" and c0: "value_start c0"
    by (auto simp: starts_value_def split: list.splits)
  have loop: "array_loop F m (s @ t' @ CHR '']'' # rest) = Inr (x # xs, rest)"
    using rxs t' _ fuel
  proof (rule "7.IH"(2) [OF s])
    fix k r'
    assume f: "2 * length s < k" and d: "at_delimiter r'"
    from rx s d f show "scan_once F k (s @ r') = Inr (x, r')"
      by (rule "7.IH"(1))
  qed
  from c0 have nc: "c0 \<noteq> CHR '']''" "\<not> is_ws c0"
    by (simp_all add: value_start_not_close value_start_not_ws)
  from loop nc show ?case
    by (simp add: n t s0 dq_def skip_ws_not_ws)
next
  case (8 F)
  then show ?case by simp
next
  case (9 F x xs)
  then show ?case by simp
next
  case (10 F)
  from "10.prems" obtain m where "n = Suc m" by (cases n) auto
  with "10.prems" show ?case
    by (auto simp: dq_def skip_ws_not_ws)
next
  case (11 F k v kvs)
  from "11.prems"(1) obtain ks where k: "k = PyStr ks" and ks: "list_all unicode_scalar ks"
    and rv: "json_representable F v" and rkvs: "representable_items F kvs"
    and dist: "distinct (map fst ((k, v) # kvs))"
    by (cases k) auto
  have kstr: "key_str F k = Inr ks" by (simp add: k)
  from "11.prems"(2) kstr obtain s t' where s: "json_dumps F v = Inr s"
    and t': "dumps_items F kvs = Inr t'"
    and t: "t = CHR ''{'' # encode_basestring_ascii ks @ '': '' @ s @ t' @ ''}''"
    by (auto split: sum.splits)
  from "11.prems"(4) t obtain m where n: "n = Suc m" and fuel: "2 * (length s + length t') + 1 < m"
    by (cases n) auto
  have loop: "object_loop F m (concat (map escape_char ks) @ dq # CHR '':'' # CHR '' '' # s @ t'
                 @ CHR ''}'' # rest)
               = Inr ((ks, v) # map (\<lambda>(k, v). (key_text k, v)) kvs, rest)"
    using rkvs t' ks dumps_starts_value [OF rv s] _ fuel
  proof (rule "11.IH"(2) [OF kstr s])
    fix j r'
    assume f: "2 * length s < j" and d: "at_delimiter r'"
    from rv s d f show "scan_once F j (s @ r') = Inr (v, r')"
      by (rule "11.IH"(1) [OF kstr])
  qed
  from "11.prems"(1) have items: "representable_items F ((k, v) # kvs)"
    by simp
  have "py_dict (map (\<lambda>(k, v). (key_text k, v)) ((k, v) # kvs)) = (k, v) # kvs"
    by (rule py_dict_items [OF items dist])
  then have dict: "py_dict ((ks, v) # map (\<lambda>(k, v). (key_text k, v)) kvs) = (k, v) # kvs"
    by (simp add: k key_text_def)
  from loop show ?case
    by (simp add: n t encode_basestring_ascii_def skip_ws_not_ws dict)
next
  case (12 F c)
  then show ?case by simp
next
  case (13 F)
  from "13.prems"(4) obtain m where n: "n = Suc m" and fuel: "2 * length s0 < m"
    by (cases n) auto
  from "13.prems"(2) have t: "t = []" by simp
  have "scan_once F m (s0 @ CHR '']'' # rest) = Inr (v0, CHR '']'' # rest)"
    using fuel by (rule "13.prems"(3)) simp
  from array_loop_last [OF this] show ?case
    by (simp add: n t)
next
  case (14 F x xs)
  from "14.prems"(2) obtain s t' where s: "json_dumps F x = Inr s"
    and t': "dumps_elems F xs = Inr t'" and t: "t = '', '' @ s @ t'"
    by (auto split: sum.splits)
  from "14.prems"(1) have rx: "json_representable F x" and rxs: "representable_list F xs"
    by simp_all
  from "14.prems"(4) t obtain m where n: "n = Suc m" and fuel0: "2 * length s0 < m"
    and fuel: "2 * (length s + length t') + 1 < m"
    by (cases n) auto
  let ?u = "s @ t' @ CHR '']'' # rest"
  have first: "scan_once F m (s0 @ CHR '','' # CHR '' '' # ?u) = Inr (v0, CHR '','' # CHR '' '' # ?u)"
    using fuel0 by (rule "14.prems"(3)) simp
  have skip: "skip_ws ?u = ?u"
    using dumps_starts_value [OF rx s] by (rule skip_ws_value)
  have loop: "array_loop F m ?u = Inr (x # xs, rest)"
    using rxs t' _ fuel
  proof (rule "14.IH"(2) [OF s])
    fix k r'
    assume f: "2 * length s < k" and d: "at_delimiter r'"
    from rx s d f show "scan_once F k (s @ r') = Inr (x, r')"
      by (rule "14.IH"(1))
  qed
  from array_loop_more [OF first skip loop] show ?case
    by (simp add: n t)
next
  case (15 F)
  from "15.prems"(6) obtain m where n: "n = Suc m" and fuel: "2 * length s0 < m"
    by (cases n) auto
  from "15.prems"(2) have t: "t = []" by simp
  let ?kt = "concat (map escape_char k0) @ [dq]"
  let ?after = "CHR '':'' # CHR '' '' # s0 @ CHR ''}'' # rest"
  have key: "scanstring (?kt @ ?after) = Inr (k0, ?after)"
    using scanstring_body [OF "15.prems"(3), of ?after] by simp
  have skip: "skip_ws (s0 @ CHR ''}'' # rest) = s0 @ CHR ''}'' # rest"
    using "15.prems"(4) by (rule skip_ws_value)
  have val: "scan_once F m (s0 @ CHR ''}'' # rest) = Inr (v0, CHR ''}'' # rest)"
    using fuel by (rule "15.prems"(5)) simp
  from object_loop_last [OF key skip val] show ?case
    by (simp add: n t)
next
  case (16 F k v kvs)
  from "16.prems"(1) obtain ks where k: "k = PyStr ks" and ks: "list_all unicode_scalar ks"
    and rv: "json_representable F v" and rkvs: "representable_items F kvs"
    by (cases k) auto
  have kstr: "key_str F k = Inr ks" by (simp add: k)
  from "16.prems"(2) kstr obtain s t' where s: "json_dumps F v = Inr s"
    and t': "dumps_items F kvs = Inr t'"
    and t: "t = '', '' @ encode_basestring_ascii ks @ '': '' @ s @ t'"
    by (auto split: sum.splits)
  from "16.prems"(6) t obtain m where n: "n = Suc m" and fuel0: "2 * length s0 < m"
    and fuel: "2 * (length s + length t') + 1 < m"
    by (cases n) auto
  let ?u = "concat (map escape_char ks) @ dq # CHR '':'' # CHR '' '' # s @ t' @ CHR ''}'' # rest"
  let ?kt = "concat (map escape_char k0) @ [dq]"
  let ?after = "CHR '':'' # CHR '' '' # s0 @ CHR '','' # CHR '' '' # dq # ?u"
  have key: "scanstring (?kt @ ?after) = Inr (k0, ?after)"
    using scanstring_body [OF "16.prems"(3), of ?after] by simp
  have skip: "skip_ws (s0 @ CHR '','' # CHR '' '' # dq # ?u) = s0 @ CHR '','' # CHR '' '' # dq # ?u"
    using "16.prems"(4) by (rule skip_ws_value)
  have val: "scan_once F m (s0 @ CHR '','' # CHR '' '' # dq # ?u)
               = Inr (v0, CHR '','' # CHR '' '' # dq # ?u)"
    using fuel0 by (rule "16.prems"(5)) simp
  have loop: "object_loop F m ?u = Inr ((ks, v) # map (\<lambda>(k, v). (key_text k, v)) kvs, rest)"
    using rkvs t' ks dumps_starts_value [OF rv s] _ fuel
  proof (rule "16.IH"(2) [OF kstr s])
    fix j r'
    assume f: "2 * length s < j" and d: "at_delimiter r'"
    from rv s d f show "scan_once F j (s @ r') = Inr (v, r')"
      by (rule "16.IH"(1) [OF kstr])
  qed
  from object_loop_more [OF key skip val loop] show ?case
    by (simp add: n t k key_text_def encode_basestring_ascii_def)
qed

lemma representable_encodable:
  fixes F :: "'f float_ops"
  shows "json_representable F v \<Longrightarrow> encodable v"
    and "representable_list F xs \<Longrightarrow> encodable_list xs"
    and "representable_items F kvs \<Longrightarrow> encodable_items kvs"
  by (induction F v and F xs and F kvs rule: json_representable_representable_list_representable_items.induct)
     (auto split: pyval.splits)

lemma json_loads_json_dumps:
  assumes "json_representable F v" and "json_dumps F v = Inr t"
  shows "json_loads F t = Inr v"
proof -
  have "scan_once F (2 * length t + 1) (t @ []) = Inr (v, [])"
    using assms by (rule dumps_scan(1)) simp_all
  moreover have "skip_ws t = t"
    using skip_ws_value [OF dumps_starts_value [OF assms], of "[]"] by simp
  ultimately show ?thesis
    by (simp add: json_loads_def skip_ws_def)
qed

text \<open>
  C1. For a data dictionary in the JSON value model, and any template, \<open>render\<close> returns a
  text, and \<open>json.loads\<close> of that text is the dictionary again: the text is valid JSON and the
  round trip is exact.
\<close>

theorem render_round_trip:
  "json_representable F d \<Longrightarrow>
   \<exists>s. fst (render F m d t p) = Inr s \<and> json_loads F s = Inr d"
proof -
  assume r: "json_representable F d"
  then have "encodable d" by (rule representable_encodable(1))
  with dumps_encodable(1) [of d F] obtain s where s: "json_dumps F d = Inr s"
    by blast
  from json_loads_json_dumps [OF r s] s show ?thesis
    by (simp add: render_def Let_def)
qed

lemma example_data_representable: "json_representable text_floats example_data"
  by (simp add: example_data_def str_def unicode_scalar_def float_as_number_def text_floats_def
        match_number_def match_integer_def match_frac_def match_exp_def is_digit_def)

lemma example_data_text:
  \<open>json_dumps text_floats example_data =
     Inr (''{"name": "caf'' @ bs # ''u00e9", "tags": [-12, 1.5, true, null, {}]}'')\<close>
  by (simp add: example_data_def str_def encode_basestring_ascii_def escape_char_def u_escape_def
        hex4_def hex_digit_def int_repr_def nat_repr.simps text_floats_def dq_def bs_def
        char_of_eq_iff)

theorem render_round_trip_witness:
  \<open>json_representable text_floats example_data \<and>
   fst (render text_floats ''cement.ext.ext_json'' example_data ()
          \<lparr>sys_stdout = 7, sys_stderr = 8, saved_stdout = 1, saved_stderr = 2, debug_log = []\<rparr>)
     = Inr (''{"name": "caf'' @ bs # ''u00e9", "tags": [-12, 1.5, true, null, {}]}'') \<and>
   json_loads text_floats (''{"name": "caf'' @ bs # ''u00e9", "tags": [-12, 1.5, true, null, {}]}'')
     = Inr example_data\<close>
proof -
  let ?p = "\<lparr>sys_stdout = 7, sys_stderr = 8, saved_stdout = 1, saved_stderr = 2, debug_log = []\<rparr>"
  from render_round_trip [OF example_data_representable, of "''cement.ext.ext_json''" "()" ?p]
  obtain s where s: "fst (render text_floats ''cement.ext.ext_json'' example_data () ?p) = Inr s"
    and l: "json_loads text_floats s = Inr example_data"
    by blast
  have out: \<open>fst (render text_floats ''cement.ext.ext_json'' example_data () ?p)
     = Inr (''{"name": "caf'' @ bs # ''u00e9", "tags": [-12, 1.5, true, null, {}]}'')\<close>
    by (simp add: render_def Let_def example_data_text)
  with s have \<open>s = ''{"name": "caf'' @ bs # ''u00e9", "tags": [-12, 1.5, true, null, {}]}''\<close>
    by simp
  with l out example_data_representable show ?thesis
    by simp
qed

end
